theory Spec2Isabelle
  imports Main "HOL-Library.Word" "HOL-Library.AList" "HOL-Library.Char_ord"
    "HOL-Library.List_Lexorder"
begin

unbundle bit_operations_syntax

section \<open>The credential manager of MAK3R-HUB (class CredentialManager)\<close>

text \<open>
  The development embeds the class \<open>CredentialManager\<close> (credentials/manager.js).
  A Node \<open>Buffer\<close> is a list of bytes. A JavaScript string is represented by the
  bytes of its UTF-8 encoding (a \<open>string\<close>, whose characters are bytes), so
  \<open>Buffer.from(s, 'utf8')\<close> and \<open>buf.toString('utf8')\<close> only change the type;
  this is exact on well-formed strings and on buffers that hold well-formed UTF-8.
\<close>

subsection \<open>Buffers and strings\<close>

type_synonym byte = "8 word"
type_synonym buffer = "byte list"

definition byte_of_char :: "char \<Rightarrow> byte" where
  "byte_of_char c = of_nat (of_char c)"

definition char_of_byte :: "byte \<Rightarrow> char" where
  "char_of_byte b = char_of (unat b)"

text \<open>\<open>Buffer.from(s, 'utf8')\<close>\<close>
definition buffer_from_utf8 :: "string \<Rightarrow> buffer" where
  "buffer_from_utf8 s = map byte_of_char s"

text \<open>\<open>buf.toString('utf8')\<close>\<close>
definition toString_utf8 :: "buffer \<Rightarrow> string" where
  "toString_utf8 b = map char_of_byte b"

subsection \<open>Errors\<close>

text \<open>
  Every \<open>throw new Error(...)\<close> of the class is a constructor that carries the values
  interpolated into the message; the wrapping \<open>catch\<close> blocks that rethrow with a
  prefix keep the wrapped error. \<open>TypeError\<close> stands for the runtime's own exception
  (a value that is not iterable, a non-string given to \<open>Buffer.from\<close>).
\<close>

datatype error =
    MasterKeyNotInitialized
  | ServiceNameNotString
  | MissingRequiredField string string
  | NoCredentialsFound string
  | TypeError
  | FailedToSave error
  | FailedToSet string error
  | FailedToGet string error
  | FailedToRotate string error

subsection \<open>The XOR loops\<close>

text \<open>
  \<open>key[i % key.length]\<close>: for an empty key the index is \<open>NaN\<close>, the read gives
  \<open>undefined\<close>, and \<open>x ^ undefined\<close> is \<open>x\<close>.
\<close>
definition key_at :: "buffer \<Rightarrow> nat \<Rightarrow> byte" where
  "key_at key i = (if key = [] then 0 else key ! (i mod length key))"

text \<open>\<open>for (let i = 0; i < data.length; i++) result[i] = data[i] ^ key[i % key.length]\<close>\<close>
definition xor_loop :: "buffer \<Rightarrow> buffer \<Rightarrow> buffer" where
  "xor_loop key data = map (\<lambda>i. data ! i XOR key_at key i) [0..<length data]"

text \<open>\<open>encrypt(data)\<close>, with \<open>this.masterKey\<close> as first argument (\<open>None\<close> is \<open>null\<close>).\<close>
definition encrypt :: "buffer option \<Rightarrow> string \<Rightarrow> error + buffer" where
  "encrypt masterKey data =
     (case masterKey of
        None \<Rightarrow> Inl MasterKeyNotInitialized
      | Some k \<Rightarrow> Inr (xor_loop k (buffer_from_utf8 data)))"

text \<open>\<open>decrypt(encryptedData)\<close>\<close>
definition decrypt :: "buffer option \<Rightarrow> buffer \<Rightarrow> error + string" where
  "decrypt masterKey encryptedData =
     (case masterKey of
        None \<Rightarrow> Inl MasterKeyNotInitialized
      | Some k \<Rightarrow> Inr (toString_utf8 (xor_loop k encryptedData)))"

subsection \<open>Objects, values and truthiness\<close>

text \<open>
  A credential record is a plain object whose values are strings, or the boolean of a
  \<open>_encrypted\<close> marker. An object is the list of its own properties in insertion
  order. A read \<open>obj[k]\<close> of a plain object finds an own property, else a member
  inherited from \<open>Object.prototype\<close> (a function, or for \<open>__proto__\<close> the prototype
  object: truthy, not a string, not iterable), else \<open>undefined\<close>.
\<close>

datatype jsval = JStr string | JBool bool

type_synonym credentials = "(string \<times> jsval) list"

datatype 'a property = Absent | Inherited | Own 'a

definition object_prototype_keys :: "string list" where
  "object_prototype_keys =
     [''constructor'', ''__defineGetter__'', ''__defineSetter__'', ''hasOwnProperty'',
      ''__lookupGetter__'', ''__lookupSetter__'', ''isPrototypeOf'',
      ''propertyIsEnumerable'', ''toString'', ''valueOf'', ''__proto__'',
      ''toLocaleString'']"

definition js_get :: "(string \<times> 'a) list \<Rightarrow> string \<Rightarrow> 'a property" where
  "js_get obj k =
     (case map_of obj k of
        Some v \<Rightarrow> Own v
      | None \<Rightarrow> if k \<in> set object_prototype_keys then Inherited else Absent)"

fun truthy :: "jsval property \<Rightarrow> bool" where
  "truthy Absent = False"
| "truthy Inherited = True"
| "truthy (Own (JStr s)) = (s \<noteq> [])"
| "truthy (Own (JBool b)) = b"

subsection \<open>validateCredentials\<close>

text \<open>The table \<open>validationRules\<close>: service, required fields, optional fields.\<close>
definition validationRules :: "(string \<times> string list \<times> string list) list" where
  "validationRules =
     [(''stripe'', [''api_key''], [''webhook_secret'', ''environment'']),
      (''openai'', [''api_key''], [''organization'', ''model_preference'']),
      (''github'', [''token''], [''username'', ''email'']),
      (''aws'', [''access_key_id'', ''secret_access_key''],
         [''region'', ''role_arn'', ''session_token'']),
      (''vercel'', [''token''], [''team_id'', ''project_id'']),
      (''netlify'', [''token''], [''site_id'']),
      (''digitalocean'', [''token''], [''spaces_key'', ''spaces_secret''])]"

text \<open>What \<open>console.warn\<close> prints during validation.\<close>
datatype warning = NoValidationRules string | UnknownField string string

text \<open>The loop over \<open>rules.required\<close>: the first falsy field throws.\<close>
fun check_required :: "string \<Rightarrow> string list \<Rightarrow> credentials \<Rightarrow> error + unit" where
  "check_required service [] creds = Inr ()"
| "check_required service (field # fields) creds =
     (if \<not> truthy (js_get creds field) then Inl (MissingRequiredField field service)
      else check_required service fields creds)"

text \<open>The loop over \<open>Object.keys(credentials)\<close>: one warning for each unknown field.\<close>
definition unknown_fields :: "string \<Rightarrow> string list \<Rightarrow> credentials \<Rightarrow> warning list" where
  "unknown_fields service allAllowedFields creds =
     map (\<lambda>field. UnknownField field service)
       (filter (\<lambda>field. field \<notin> set allAllowedFields) (map fst creds))"

text \<open>
  \<open>validateCredentials(service, credentials)\<close>. A service id that names a member of
  \<open>Object.prototype\<close> makes \<open>rules\<close> truthy with \<open>rules.required\<close> undefined, and the
  \<open>for ... of\<close> over it throws a \<open>TypeError\<close>.
\<close>
definition validateCredentials :: "string \<Rightarrow> credentials \<Rightarrow> error + warning list" where
  "validateCredentials service creds =
     (case js_get validationRules service of
        Absent \<Rightarrow> Inr [NoValidationRules service]
      | Inherited \<Rightarrow> Inl TypeError
      | Own (required, optional) \<Rightarrow>
          (case check_required service required creds of
             Inl e \<Rightarrow> Inl e
           | Inr _ \<Rightarrow> Inr (unknown_fields service (required @ optional) creds)))"

subsection \<open>Base64\<close>

definition base64_alphabet :: string where
  "base64_alphabet = ''ABCDEFGHIJKLMNOPQRSTUVWXYZabcdefghijklmnopqrstuvwxyz0123456789+/''"

definition b64_char :: "nat \<Rightarrow> char" where
  "b64_char i = base64_alphabet ! i"

text \<open>\<open>buf.toString('base64')\<close>: three bytes give four characters, the rest is padded.\<close>
fun toString_base64 :: "buffer \<Rightarrow> string" where
  "toString_base64 [] = []"
| "toString_base64 [a] =
     [b64_char (unat a div 4), b64_char ((unat a mod 4) * 16), CHR ''='', CHR ''='']"
| "toString_base64 [a, b] =
     [b64_char (unat a div 4), b64_char ((unat a mod 4) * 16 + unat b div 16),
      b64_char ((unat b mod 16) * 4), CHR ''='']"
| "toString_base64 (a # b # c # rest) =
     b64_char (unat a div 4) # b64_char ((unat a mod 4) * 16 + unat b div 16) #
     b64_char ((unat b mod 16) * 4 + unat c div 64) # b64_char (unat c mod 64) #
     toString_base64 rest"

text \<open>
  The value of a legal character. Node's decoder takes the URL-safe characters too,
  skips every other character, and stops at the first \<open>=\<close>.
\<close>
definition unbase64 :: "char \<Rightarrow> nat option" where
  "unbase64 c =
     (if CHR ''A'' \<le> c \<and> c \<le> CHR ''Z'' then Some (of_char c - 65)
      else if CHR ''a'' \<le> c \<and> c \<le> CHR ''z'' then Some (of_char c - 71)
      else if CHR ''0'' \<le> c \<and> c \<le> CHR ''9'' then Some (of_char c + 4)
      else if c = CHR ''+'' \<or> c = CHR ''-'' then Some 62
      else if c = CHR ''/'' \<or> c = CHR ''_'' then Some 63
      else None)"

definition b64_sextets :: "string \<Rightarrow> nat list" where
  "b64_sextets s = List.map_filter unbase64 (takeWhile (\<lambda>c. c \<noteq> CHR ''='') s)"

fun b64_groups :: "nat list \<Rightarrow> buffer" where
  "b64_groups (p # q # r # t # rest) =
     of_nat (p * 4 + q div 16) # of_nat ((q mod 16) * 16 + r div 4) #
     of_nat ((r mod 4) * 64 + t) # b64_groups rest"
| "b64_groups [p, q, r] = [of_nat (p * 4 + q div 16), of_nat ((q mod 16) * 16 + r div 4)]"
| "b64_groups [p, q] = [of_nat (p * 4 + q div 16)]"
| "b64_groups _ = []"

text \<open>\<open>Buffer.from(s, 'base64')\<close>\<close>
definition buffer_from_base64 :: "string \<Rightarrow> buffer" where
  "buffer_from_base64 s = b64_groups (b64_sextets s)"

subsection \<open>String methods\<close>

text \<open>\<open>s.startsWith(pat)\<close>\<close>
fun startsWith :: "'a list \<Rightarrow> 'a list \<Rightarrow> bool" where
  "startsWith s [] = True"
| "startsWith [] (p # pat) = False"
| "startsWith (c # s) (p # pat) = (c = p \<and> startsWith s pat)"

text \<open>\<open>s.indexOf(pat)\<close>, \<open>None\<close> for -1.\<close>
fun indexOf :: "'a list \<Rightarrow> 'a list \<Rightarrow> nat option" where
  "indexOf [] pat = (if pat = [] then Some 0 else None)"
| "indexOf (c # s) pat =
     (if startsWith (c # s) pat then Some 0 else map_option Suc (indexOf s pat))"

text \<open>\<open>s.includes(pat)\<close>, of a string or of a buffer.\<close>
definition string_includes :: "'a list \<Rightarrow> 'a list \<Rightarrow> bool" where
  "string_includes s pat = (indexOf s pat \<noteq> None)"

text \<open>\<open>s.endsWith(suf)\<close>\<close>
definition endsWith :: "string \<Rightarrow> string \<Rightarrow> bool" where
  "endsWith s suf = (length suf \<le> length s \<and> drop (length s - length suf) s = suf)"

text \<open>\<open>s.replace(pat, '')\<close> with a string pattern: the first occurrence only.\<close>
definition replace_first_empty :: "string \<Rightarrow> string \<Rightarrow> string" where
  "replace_first_empty s pat =
     (case indexOf s pat of
        None \<Rightarrow> s
      | Some i \<Rightarrow> take i s @ drop (i + length pat) s)"

text \<open>\<open>s.split(sep)[1]\<close> for a non-empty \<open>sep\<close>; \<open>None\<close> is \<open>undefined\<close>.\<close>
definition split_second :: "string \<Rightarrow> string \<Rightarrow> string option" where
  "split_second s sep =
     (case indexOf s sep of
        None \<Rightarrow> None
      | Some i \<Rightarrow>
          (let rest = drop (i + length sep) s
           in case indexOf rest sep of None \<Rightarrow> Some rest | Some j \<Rightarrow> Some (take j rest)))"

subsection \<open>Sealing and opening a record\<close>

text \<open>The table \<open>sensitiveFields\<close>.\<close>
definition sensitiveFields :: "(string \<times> string list) list" where
  "sensitiveFields =
     [(''stripe'', [''api_key'', ''webhook_secret'']),
      (''openai'', [''api_key'']),
      (''github'', [''token'']),
      (''aws'', [''secret_access_key'', ''session_token'']),
      (''vercel'', [''token'']),
      (''netlify'', [''token'']),
      (''digitalocean'', [''token'', ''spaces_secret''])]"

text \<open>
  \<open>this.encrypt(result[field])\<close> for a truthy property: the master key is checked
  first, then \<open>Buffer.from(data, 'utf8')\<close> throws on anything but a string.
\<close>
fun encrypt_value :: "buffer option \<Rightarrow> jsval property \<Rightarrow> error + buffer" where
  "encrypt_value mk (Own (JStr s)) = encrypt mk s"
| "encrypt_value mk _ = (if mk = None then Inl MasterKeyNotInitialized else Inl TypeError)"

text \<open>
  The loop of \<open>encryptSensitiveFields\<close> over the sensitive fields. The assignments
  keep the position of a property the object has and append a new one.
\<close>
fun seal_loop :: "buffer option \<Rightarrow> string list \<Rightarrow> credentials \<Rightarrow> error + credentials" where
  "seal_loop mk [] result = Inr result"
| "seal_loop mk (field # fields) result =
     (if truthy (js_get result field) then
        (case encrypt_value mk (js_get result field) of
           Inl e \<Rightarrow> Inl e
         | Inr c \<Rightarrow>
             seal_loop mk fields
               (AList.update (field @ ''_encrypted'') (JBool True)
                  (AList.update field (JStr (toString_base64 c)) result)))
      else seal_loop mk fields result)"

text \<open>
  \<open>encryptSensitiveFields(service, credentials)\<close>; \<open>sensitiveFields[service] || []\<close>
  is an inherited member for a service id that names one, and iterating it throws.
\<close>
definition encryptSensitiveFields :: "buffer option \<Rightarrow> string \<Rightarrow> credentials \<Rightarrow> error + credentials" where
  "encryptSensitiveFields mk service creds =
     (case js_get sensitiveFields service of
        Absent \<Rightarrow> seal_loop mk [] creds
      | Inherited \<Rightarrow> Inl TypeError
      | Own sensitive \<Rightarrow> seal_loop mk sensitive creds)"

text \<open>
  The \<open>try\<close> block of \<open>decryptSensitiveFields\<close> for a truthy \<open>result[actualField]\<close>:
  a value that is not a string makes \<open>Buffer.from(..., 'base64')\<close> throw, a missing
  master key makes \<open>decrypt\<close> throw; the \<open>catch\<close> only warns, and the field stays.
\<close>
fun open_field :: "buffer option \<Rightarrow> string \<Rightarrow> jsval property \<Rightarrow> credentials \<Rightarrow> credentials" where
  "open_field mk actualField (Own (JStr s)) result =
     (case decrypt mk (buffer_from_base64 s) of
        Inl e \<Rightarrow> result
      | Inr plain \<Rightarrow> AList.update actualField (JStr plain) result)"
| "open_field mk actualField _ result = result"

text \<open>
  The loop of \<open>decryptSensitiveFields\<close> over \<open>Object.entries(result)\<close>, an array made
  before the loop starts, while \<open>result\<close> is updated.
\<close>
fun open_loop :: "buffer option \<Rightarrow> (string \<times> jsval) list \<Rightarrow> credentials \<Rightarrow> credentials" where
  "open_loop mk [] result = result"
| "open_loop mk ((field, v) # entries) result =
     (if endsWith field ''_encrypted'' \<and> v = JBool True then
        (let actualField = replace_first_empty field ''_encrypted'';
             result1 = (if truthy (js_get result actualField)
                        then open_field mk actualField (js_get result actualField) result
                        else result)
         in open_loop mk entries (AList.delete field result1))
      else open_loop mk entries result)"

text \<open>
  A value of the cache: a record, or \<open>undefined\<close> (what \<open>rotateCredentials\<close> stores
  as backup of a service that has no record).
\<close>
datatype cached = Undefined | Creds credentials

text \<open>\<open>{ ...credentials }\<close>\<close>
fun spread :: "cached \<Rightarrow> credentials" where
  "spread Undefined = []"
| "spread (Creds c) = c"

text \<open>\<open>decryptSensitiveFields(service, credentials)\<close>\<close>
definition decryptSensitiveFields :: "buffer option \<Rightarrow> string \<Rightarrow> cached \<Rightarrow> credentials" where
  "decryptSensitiveFields mk service creds = open_loop mk (spread creds) (spread creds)"

subsection \<open>Numbers in strings\<close>

definition is_digit :: "char \<Rightarrow> bool" where
  "is_digit c = (CHR ''0'' \<le> c \<and> c \<le> CHR ''9'')"

definition digit_val :: "char \<Rightarrow> nat" where
  "digit_val c = of_char c - 48"

definition decimal_value :: "string \<Rightarrow> nat" where
  "decimal_value ds = foldl (\<lambda>n c. 10 * n + digit_val c) 0 ds"

text \<open>The decimal numeral of a number, as a template literal prints \<open>Date.now()\<close>.\<close>
fun string_of_nat :: "nat \<Rightarrow> string" where
  "string_of_nat n =
     (if n < 10 then [''0123456789'' ! n]
      else string_of_nat (n div 10) @ [''0123456789'' ! (n mod 10)])"

declare string_of_nat.simps [simp del]

definition is_space :: "char \<Rightarrow> bool" where
  "is_space c = (c \<in> set [CHR 0x20, CHR 0x09, CHR 0x0A, CHR 0x0B, CHR 0x0C, CHR 0x0D])"

text \<open>
  \<open>parseInt(s, 10)\<close>: leading white space (the ASCII part of it), a sign, then the
  longest run of digits; \<open>None\<close> is \<open>NaN\<close>.
\<close>
definition parseInt10 :: "string \<Rightarrow> int option" where
  "parseInt10 s =
     (let t = dropWhile is_space s;
          neg = (t \<noteq> [] \<and> hd t = CHR ''-'');
          u = (if t \<noteq> [] \<and> (hd t = CHR ''-'' \<or> hd t = CHR ''+'') then tl t else t);
          ds = takeWhile is_digit u
      in if ds = [] then None
         else Some (if neg then - int (decimal_value ds) else int (decimal_value ds)))"

subsection \<open>The manager and its files\<close>

text \<open>
  The fields of the object that the operations use, and the two files it owns
  (\<open>None\<close>: the file does not exist). The cache is a \<open>Map\<close>: keys in insertion
  order, \<open>set\<close> on a key it has keeps the position. Records are never updated in place
  (sealing and opening work on copies), so the cache holds them by value. File
  operations are taken to succeed; console output other than the warnings of
  validation is left out.
\<close>
record manager =
  cache :: "(string \<times> cached) list"
  masterKey :: "buffer option"
  keyFile :: "buffer option"
  credentialsFile :: "buffer option"

definition keyLength :: nat where "keyLength = 32"
definition saltLength :: nat where "saltLength = 32"

subsection \<open>The master key\<close>

text \<open>
  \<open>encryptMasterKey(key)\<close>; \<open>machineId\<close> is the digest that \<open>getMachineId()\<close> returns
  and \<open>salt\<close> the bytes that \<open>crypto.randomBytes(this.saltLength)\<close> returns.
\<close>
definition encryptMasterKey :: "buffer \<Rightarrow> buffer \<Rightarrow> buffer \<Rightarrow> buffer" where
  "encryptMasterKey machineId salt key =
     (let combinedKey = take 16 machineId @ take 16 salt
      in salt @ xor_loop combinedKey key)"

text \<open>\<open>decryptMasterKey(encryptedData)\<close>\<close>
definition decryptMasterKey :: "buffer \<Rightarrow> buffer \<Rightarrow> buffer" where
  "decryptMasterKey machineId encryptedData =
     (let salt = take saltLength encryptedData;
          encrypted = drop saltLength encryptedData;
          combinedKey = take 16 machineId @ take 16 salt
      in xor_loop combinedKey encrypted)"

text \<open>
  \<open>loadOrCreateMasterKey()\<close>; \<open>randomKey\<close> and \<open>randomSalt\<close> are what the two calls of
  \<open>crypto.randomBytes\<close> return when the key file does not exist.
\<close>
definition loadOrCreateMasterKey :: "buffer \<Rightarrow> buffer \<Rightarrow> buffer \<Rightarrow> manager \<Rightarrow> manager" where
  "loadOrCreateMasterKey machineId randomKey randomSalt m =
     (case keyFile m of
        Some keyData \<Rightarrow> m\<lparr>masterKey := Some (decryptMasterKey machineId keyData)\<rparr>
      | None \<Rightarrow>
          m\<lparr>masterKey := Some randomKey,
            keyFile := Some (encryptMasterKey machineId randomSalt randomKey)\<rparr>)"

subsection \<open>JSON.stringify(credentials, null, 2)\<close>

definition hex_digit :: "nat \<Rightarrow> char" where
  "hex_digit n = ''0123456789abcdef'' ! n"

text \<open>The escapes of a JSON string; \<open>CHR 0x5C\<close> is the backslash, \<open>CHR 0x22\<close> the quote.\<close>
definition json_escape :: "char \<Rightarrow> string" where
  "json_escape c =
     (if c = CHR 0x08 then [CHR 0x5C, CHR ''b'']
      else if c = CHR 0x09 then [CHR 0x5C, CHR ''t'']
      else if c = CHR 0x0A then [CHR 0x5C, CHR ''n'']
      else if c = CHR 0x0C then [CHR 0x5C, CHR ''f'']
      else if c = CHR 0x0D then [CHR 0x5C, CHR ''r'']
      else if c = CHR 0x22 then [CHR 0x5C, CHR 0x22]
      else if c = CHR 0x5C then [CHR 0x5C, CHR 0x5C]
      else if (of_char c :: nat) < 32 then
        [CHR 0x5C, CHR ''u'', CHR ''0'', CHR ''0'',
         hex_digit (of_char c div 16), hex_digit (of_char c mod 16)]
      else [c])"

definition json_quote :: "string \<Rightarrow> string" where
  "json_quote s = CHR 0x22 # concat (map json_escape s) @ [CHR 0x22]"

fun join :: "string \<Rightarrow> string list \<Rightarrow> string" where
  "join sep [] = []"
| "join sep [x] = x"
| "join sep (x # y # ys) = x @ sep @ join sep (y # ys)"

text \<open>An object with the given members (key, serialised value), closed at \<open>stepback\<close>.\<close>
definition json_object :: "string \<Rightarrow> (string \<times> string) list \<Rightarrow> string" where
  "json_object stepback members =
     (if members = [] then ''{}''
      else ''{'' @ [CHR 0x0A]
        @ join ('','' @ [CHR 0x0A])
            (map (\<lambda>(k, v). stepback @ ''  '' @ json_quote k @ '': '' @ v) members)
        @ [CHR 0x0A] @ stepback @ ''}'')"

fun json_value :: "jsval \<Rightarrow> string" where
  "json_value (JStr s) = json_quote s"
| "json_value (JBool b) = (if b then ''true'' else ''false'')"

fun json_member :: "string \<times> cached \<Rightarrow> (string \<times> string) option" where
  "json_member (k, Undefined) = None"
| "json_member (k, Creds c) =
     Some (k, json_object ''  '' (map (\<lambda>(f, v). (f, json_value v)) c))"

text \<open>The whole document; a property whose value is \<open>undefined\<close> is left out.\<close>
definition JSON_stringify :: "(string \<times> cached) list \<Rightarrow> string" where
  "JSON_stringify obj = json_object [] (List.map_filter json_member obj)"

subsection \<open>Assignment to a property of a plain object\<close>

text \<open>
  A canonical numeric string below \<open>2^32 - 1\<close> is an array index; the own keys of an
  object list array indices first, in ascending order, then the other strings in
  insertion order.
\<close>
definition array_index :: "string \<Rightarrow> nat option" where
  "array_index k =
     (if k \<noteq> [] \<and> list_all is_digit k \<and> (k = ''0'' \<or> hd k \<noteq> CHR ''0'')
         \<and> decimal_value k < 4294967295
      then Some (decimal_value k) else None)"

fun insert_indexed :: "nat \<Rightarrow> string \<Rightarrow> 'a \<Rightarrow> (string \<times> 'a) list \<Rightarrow> (string \<times> 'a) list" where
  "insert_indexed n k v [] = [(k, v)]"
| "insert_indexed n k v ((k', v') # obj) =
     (case array_index k' of
        Some n' \<Rightarrow>
          if n' < n then (k', v') # insert_indexed n k v obj else (k, v) # (k', v') # obj
      | None \<Rightarrow> (k, v) # (k', v') # obj)"

text \<open>
  \<open>obj[k] = v\<close>. Assigning to \<open>__proto__\<close> goes to the setter of \<open>Object.prototype\<close>
  and makes no own property.
\<close>
definition js_assign :: "string \<Rightarrow> 'a \<Rightarrow> (string \<times> 'a) list \<Rightarrow> (string \<times> 'a) list" where
  "js_assign k v obj =
     (if k = ''__proto__'' then obj
      else if map_of obj k \<noteq> None then AList.update k v obj
      else (case array_index k of
              Some n \<Rightarrow> insert_indexed n k v obj
            | None \<Rightarrow> obj @ [(k, v)]))"

subsection \<open>The operations\<close>

text \<open>\<open>saveCredentials()\<close>\<close>
definition saveCredentials :: "manager \<Rightarrow> (error + unit) \<times> manager" where
  "saveCredentials m =
     (let credentials = foldl (\<lambda>obj (service, creds). js_assign service creds obj) [] (cache m);
          jsonData = JSON_stringify credentials
      in case encrypt (masterKey m) jsonData of
           Inl e \<Rightarrow> (Inl (FailedToSave e), m)
         | Inr encryptedData \<Rightarrow> (Inr (), m\<lparr>credentialsFile := Some encryptedData\<rparr>))"

text \<open>\<open>setCredentials(service, credentials)\<close>\<close>
definition setCredentials :: "string \<Rightarrow> credentials \<Rightarrow> manager \<Rightarrow> (error + unit) \<times> manager" where
  "setCredentials service creds m =
     (if service = [] then (Inl (FailedToSet service ServiceNameNotString), m)
      else
        (case validateCredentials service creds of
           Inl e \<Rightarrow> (Inl (FailedToSet service e), m)
         | Inr warnings \<Rightarrow>
             (case encryptSensitiveFields (masterKey m) service creds of
                Inl e \<Rightarrow> (Inl (FailedToSet service e), m)
              | Inr encryptedCredentials \<Rightarrow>
                  (case saveCredentials
                          (m\<lparr>cache := AList.update service (Creds encryptedCredentials) (cache m)\<rparr>) of
                     (Inl e, m') \<Rightarrow> (Inl (FailedToSet service e), m')
                   | (Inr u, m') \<Rightarrow> (Inr (), m')))))"

text \<open>\<open>getCredentials(service)\<close>\<close>
definition getCredentials :: "string \<Rightarrow> manager \<Rightarrow> error + credentials" where
  "getCredentials service m =
     (case map_of (cache m) service of
        None \<Rightarrow> Inl (FailedToGet service (NoCredentialsFound service))
      | Some encryptedCredentials \<Rightarrow>
          Inr (decryptSensitiveFields (masterKey m) service encryptedCredentials))"

text \<open>\<open>listServices()\<close>\<close>
definition listServices :: "manager \<Rightarrow> string list" where
  "listServices m = sort (map fst (cache m))"

text \<open>\<open>this.cache.get(service)\<close>\<close>
definition cache_get :: "manager \<Rightarrow> string \<Rightarrow> cached" where
  "cache_get m service = (case map_of (cache m) service of None \<Rightarrow> Undefined | Some c \<Rightarrow> c)"

text \<open>\<open>rotateCredentials(service, newCredentials)\<close>; \<open>now\<close> is what \<open>Date.now()\<close> returns.\<close>
definition rotateCredentials :: "nat \<Rightarrow> string \<Rightarrow> credentials \<Rightarrow> manager \<Rightarrow> (error + unit) \<times> manager" where
  "rotateCredentials now service newCredentials m =
     (let oldCredentials = cache_get m service;
          backupKey = service @ ''_backup_'' @ string_of_nat now
      in case setCredentials service newCredentials
                (m\<lparr>cache := AList.update backupKey oldCredentials (cache m)\<rparr>) of
           (Inl e, m') \<Rightarrow> (Inl (FailedToRotate service e), m')
         | (Inr u, m') \<Rightarrow> (Inr (), m'))"

text \<open>The loop of \<open>cleanup\<close> over the entries of the cache.\<close>
fun prune_loop :: "int \<Rightarrow> string list \<Rightarrow> (string \<times> cached) list \<Rightarrow> (string \<times> cached) list" where
  "prune_loop cutoffTime [] c = c"
| "prune_loop cutoffTime (key # keys) c =
     (if string_includes key ''_backup_'' then
        (case split_second key ''_backup_'' of
           None \<Rightarrow> prune_loop cutoffTime keys c
         | Some timestampStr \<Rightarrow>
             (case parseInt10 timestampStr of
                None \<Rightarrow> prune_loop cutoffTime keys c
              | Some timestamp \<Rightarrow>
                  if timestamp < cutoffTime then prune_loop cutoffTime keys (AList.delete key c)
                  else prune_loop cutoffTime keys c))
      else prune_loop cutoffTime keys c)"

text \<open>
  \<open>cleanup()\<close>, in the order of the source: the cache and the master key are cleared
  first, then the loop runs over the cache, then \<open>saveCredentials\<close> is called and an
  error of it is only printed.
\<close>
definition cleanup :: "nat \<Rightarrow> manager \<Rightarrow> manager" where
  "cleanup now m =
     (let m1 = m\<lparr>cache := [], masterKey := None\<rparr>;
          cutoffTime = int now - 30 * 24 * 60 * 60 * 1000;
          m2 = m1\<lparr>cache := prune_loop cutoffTime (map fst (cache m1)) (cache m1)\<rparr>
      in snd (saveCredentials m2))"

subsection \<open>getCredentials with the records on a heap\<close>

text \<open>
  The operations above hold the cached records by value. What \<open>getCredentials\<close> does
  to the cached object itself is a matter of references, so the read path is given a
  second time with the objects on a heap: an address is an index into the list of
  objects, the cache maps a service to a reference, the spread \<open>{ ...credentials }\<close>
  allocates a new object, and the assignments and the \<open>delete\<close> of
  \<open>decryptSensitiveFields\<close> are writes to the heap at the address of \<open>result\<close>.
\<close>

datatype ref = UndefinedRef | ObjRef nat

record heap_manager =
  hcache :: "(string \<times> ref) list"
  heap :: "credentials list"
  hmasterKey :: "buffer option"

text \<open>The value behind a reference.\<close>
fun deref :: "credentials list \<Rightarrow> ref \<Rightarrow> cached" where
  "deref h UndefinedRef = Undefined"
| "deref h (ObjRef a) = Creds (h ! a)"

text \<open>A reference of the cache points into the heap.\<close>
fun ref_ok :: "credentials list \<Rightarrow> ref \<Rightarrow> bool" where
  "ref_ok h UndefinedRef = True"
| "ref_ok h (ObjRef a) = (a < length h)"

text \<open>The loop of \<open>decryptSensitiveFields\<close>, writing to the object at \<open>result\<close>.\<close>
fun open_loop_heap :: "buffer option \<Rightarrow> (string \<times> jsval) list \<Rightarrow> nat \<Rightarrow> credentials list \<Rightarrow> credentials list" where
  "open_loop_heap mk [] result h = h"
| "open_loop_heap mk ((field, v) # entries) result h =
     (if endsWith field ''_encrypted'' \<and> v = JBool True then
        (let actualField = replace_first_empty field ''_encrypted'';
             h1 = (if truthy (js_get (h ! result) actualField)
                   then h[result := open_field mk actualField (js_get (h ! result) actualField)
                                      (h ! result)]
                   else h)
         in open_loop_heap mk entries result (h1[result := AList.delete field (h1 ! result)]))
      else open_loop_heap mk entries result h)"

text \<open>
  \<open>decryptSensitiveFields(service, credentials)\<close> on the heap: the address of the new
  object and the heap after the loop.
\<close>
definition decryptSensitiveFields_heap :: "buffer option \<Rightarrow> string \<Rightarrow> ref \<Rightarrow> credentials list \<Rightarrow> nat \<times> credentials list" where
  "decryptSensitiveFields_heap mk service credentials h =
     (let result = length h;
          h1 = h @ [spread (deref h credentials)]
      in (result, open_loop_heap mk (h1 ! result) result h1))"

text \<open>\<open>getCredentials(service)\<close> on the heap; it returns the address of the record.\<close>
definition getCredentials_heap :: "string \<Rightarrow> heap_manager \<Rightarrow> (error + nat) \<times> heap_manager" where
  "getCredentials_heap service hm =
     (case map_of (hcache hm) service of
        None \<Rightarrow> (Inl (FailedToGet service (NoCredentialsFound service)), hm)
      | Some encryptedCredentials \<Rightarrow>
          (let (result, h) = decryptSensitiveFields_heap (hmasterKey hm) service
                               encryptedCredentials (heap hm)
           in (Inr result, hm\<lparr>heap := h\<rparr>)))"

text \<open>The manager by value that a manager on the heap stands for.\<close>
definition by_value :: "heap_manager \<Rightarrow> manager" where
  "by_value hm =
     \<lparr>cache = map (\<lambda>p. (fst p, deref (heap hm) (snd p))) (hcache hm),
      masterKey = hmasterKey hm, keyFile = None, credentialsFile = None\<rparr>"

text \<open>Every reference of the cache points into the heap.\<close>
definition heap_ok :: "heap_manager \<Rightarrow> bool" where
  "heap_ok hm = list_all (\<lambda>p. ref_ok (heap hm) (snd p)) (hcache hm)"

subsection \<open>Notions used to state the properties\<close>

fun is_string :: "jsval \<Rightarrow> bool" where
  "is_string (JStr s) = True"
| "is_string (JBool b) = False"

text \<open>A record of plaintext values: every value is a string.\<close>
definition string_valued :: "credentials \<Rightarrow> bool" where
  "string_valued r = list_all (\<lambda>p. is_string (snd p)) r"

text \<open>The stored form of a plaintext value under the master key \<open>k\<close>.\<close>
definition sealed_value :: "buffer \<Rightarrow> string \<Rightarrow> jsval" where
  "sealed_value k s = JStr (toString_base64 (xor_loop k (buffer_from_utf8 s)))"

text \<open>What sealing makes of one property, for the sensitive fields \<open>fs\<close>.\<close>
fun seal_entry :: "buffer \<Rightarrow> string list \<Rightarrow> string \<times> jsval \<Rightarrow> string \<times> jsval" where
  "seal_entry k fs (f, JStr s) = (if f \<in> set fs \<and> s \<noteq> [] then (f, sealed_value k s) else (f, JStr s))"
| "seal_entry k fs (f, JBool b) = (f, JBool b)"

text \<open>The markers that sealing appends: one for each sensitive field with a truthy value.\<close>
definition markers :: "string list \<Rightarrow> credentials \<Rightarrow> credentials" where
  "markers fs r =
     map (\<lambda>f. (f @ ''_encrypted'', JBool True)) (filter (\<lambda>f. truthy (js_get r f)) fs)"

definition sealed_record :: "buffer \<Rightarrow> string list \<Rightarrow> credentials \<Rightarrow> credentials" where
  "sealed_record k fs r = map (seal_entry k fs) r @ markers fs r"

text \<open>
  What the proofs need of a list of sensitive fields: no field twice, none a member of
  \<open>Object.prototype\<close>, none the marker of another, and the marker of each leads back
  to the field. Every row of \<open>sensitiveFields\<close> is such a list.
\<close>
definition marker_safe :: "string list \<Rightarrow> bool" where
  "marker_safe fs =
     (distinct fs
      \<and> list_all (\<lambda>f. f \<notin> set object_prototype_keys) fs
      \<and> list_all (\<lambda>f. f @ ''_encrypted'' \<notin> set fs) fs
      \<and> list_all (\<lambda>f. replace_first_empty (f @ ''_encrypted'') ''_encrypted'' = f) fs)"

section \<open>Properties\<close>

subsection \<open>Bytes and the XOR loop\<close>

lemma char_of_byte_of_char [simp]: "char_of_byte (byte_of_char c) = c"
proof -
  have "(of_char c :: nat) < 256"
    by (metis of_char_mod_256 mod_less_divisor zero_less_numeral)
  then have "unat (of_nat (of_char c) :: byte) = of_char c"
    by (simp add: unat_of_nat)
  then show ?thesis
    by (simp add: byte_of_char_def char_of_byte_def)
qed

lemma byte_of_char_of_byte [simp]: "byte_of_char (char_of_byte b) = b"
proof -
  have "unat b < 256"
    using unsigned_less [of b] by simp
  then show ?thesis
    by (simp add: byte_of_char_def char_of_byte_def)
qed

lemma toString_buffer_from [simp]: "toString_utf8 (buffer_from_utf8 s) = s"
  by (simp add: toString_utf8_def buffer_from_utf8_def comp_def)

lemma buffer_from_toString [simp]: "buffer_from_utf8 (toString_utf8 b) = b"
  by (simp add: toString_utf8_def buffer_from_utf8_def comp_def)

lemma length_xor_loop [simp]: "length (xor_loop key data) = length data"
  by (simp add: xor_loop_def)

lemma nth_xor_loop:
  "i < length data \<Longrightarrow> xor_loop key data ! i = data ! i XOR key_at key i"
  by (simp add: xor_loop_def)

lemma xor_loop_involution [simp]: "xor_loop key (xor_loop key data) = data"
  by (rule nth_equalityI) (simp_all add: nth_xor_loop xor.assoc)



subsection \<open>Validation\<close>

lemma js_get_validationRules_empty: "js_get validationRules [] = Absent"
  by (simp add: js_get_def validationRules_def object_prototype_keys_def)

lemma validate_error_service_nonempty:
  "validateCredentials service creds = Inl e \<Longrightarrow> service \<noteq> []"
  by (auto simp: validateCredentials_def js_get_validationRules_empty)

lemma check_required_ok_iff:
  "(\<exists>u. check_required service required creds = Inr u)
     \<longleftrightarrow> list_all (\<lambda>f. truthy (js_get creds f)) required"
  by (induction required) auto

lemma check_required_error:
  "check_required service required creds = Inl e \<Longrightarrow>
     \<exists>f. e = MissingRequiredField f service \<and> f \<in> set required \<and> \<not> truthy (js_get creds f)"
  by (induction required) (auto split: if_splits)

lemma validate_stripe_empty:
  "validateCredentials ''stripe'' [] = Inl (MissingRequiredField ''api_key'' ''stripe'')"
  by (simp add: validateCredentials_def js_get_def validationRules_def object_prototype_keys_def)

lemma validate_stripe_api_key:
  "validateCredentials ''stripe'' [(''api_key'', JStr ''sk_x'')] = Inr []"
  by (simp add: validateCredentials_def js_get_def validationRules_def unknown_fields_def)

lemma validate_known:
  assumes "map_of validationRules service = Some (required, optional)"
  shows "validateCredentials service creds =
           (case check_required service required creds of
              Inl e \<Rightarrow> Inl e
            | Inr u \<Rightarrow> Inr (unknown_fields service (required @ optional) creds))"
  using assms by (simp add: validateCredentials_def js_get_def)

lemma validate_no_rules:
  assumes "map_of validationRules service = None" "service \<notin> set object_prototype_keys"
  shows "validateCredentials service creds = Inr [NoValidationRules service]"
  using assms by (simp add: validateCredentials_def js_get_def)

text \<open>
  Claim C6. Validation is to reject a record exactly when a required field of a known
  service is missing or empty, and to accept every record of an unknown service. The
  lemmas above give the first part (\<open>validate_known\<close>, \<open>check_required_error\<close>) and
  the second for a service id that is no member of \<open>Object.prototype\<close>
  (\<open>validate_no_rules\<close>). For the service id \<open>constructor\<close>, which has no rules,
  \<open>validationRules[service]\<close> is the inherited function, and validation throws a
  \<open>TypeError\<close> for every record; so does \<open>setCredentials\<close>, which stores nothing.
\<close>
theorem validate_inherited_service_throws:
  "validateCredentials ''constructor'' creds = Inl TypeError
   \<and> setCredentials ''constructor'' creds m = (Inl (FailedToSet ''constructor'' TypeError), m)"
  by (simp add: setCredentials_def validateCredentials_def js_get_def validationRules_def
      object_prototype_keys_def)

subsection \<open>Records that fail validation\<close>

lemma set_invalid:
  assumes "validateCredentials service r = Inl e"
  shows "setCredentials service r m = (Inl (FailedToSet service e), m)"
  using assms validate_error_service_nonempty [OF assms] by (simp add: setCredentials_def)

lemma rotate_invalid:
  assumes "validateCredentials service r = Inl e"
  shows "rotateCredentials now service r m =
     (Inl (FailedToRotate service (FailedToSet service e)),
      m\<lparr>cache := AList.update (service @ ''_backup_'' @ string_of_nat now)
                   (cache_get m service) (cache m)\<rparr>)"
  by (simp add: rotateCredentials_def Let_def set_invalid [OF assms])

text \<open>
  Claim C2, as stated, fails for \<open>rotateCredentials\<close>: the backup entry is put into the
  cache before \<open>setCredentials\<close> validates the new record. Rotating the stored
  \<open>stripe\<close> record with the empty record throws, and the cache has a second entry.
\<close>
theorem rotate_invalid_adds_backup:
  "validateCredentials ''stripe'' [] = Inl (MissingRequiredField ''api_key'' ''stripe'')
   \<and> cache (snd (rotateCredentials 5 ''stripe'' []
        \<lparr>cache = [(''stripe'', Creds [(''environment'', JStr ''test'')])],
         masterKey = Some [1, 2, 3], keyFile = None, credentialsFile = None\<rparr>))
     = [(''stripe'', Creds [(''environment'', JStr ''test'')]),
        (''stripe_backup_5'', Creds [(''environment'', JStr ''test'')])]"
  by (simp add: rotate_invalid [OF validate_stripe_empty] validate_stripe_empty cache_get_def
      string_of_nat.simps)

text \<open>
  Claim C2, amended. For every manager and every record that validation rejects,
  \<open>setCredentials\<close> throws the validation error and changes nothing, neither the cache
  nor the files; \<open>rotateCredentials\<close> throws it too and leaves the files and the master
  key as they are, and the cache differs from the one before only at the key
  \<open><service>_backup_<now>\<close>, which holds what the cache had for the service.
\<close>
theorem invalid_record_effects:
  assumes "validateCredentials service r = Inl e"
  shows "setCredentials service r m = (Inl (FailedToSet service e), m)
    \<and> fst (rotateCredentials now service r m) = Inl (FailedToRotate service (FailedToSet service e))
    \<and> credentialsFile (snd (rotateCredentials now service r m)) = credentialsFile m
    \<and> keyFile (snd (rotateCredentials now service r m)) = keyFile m
    \<and> masterKey (snd (rotateCredentials now service r m)) = masterKey m
    \<and> cache (snd (rotateCredentials now service r m))
        = AList.update (service @ ''_backup_'' @ string_of_nat now) (cache_get m service) (cache m)
    \<and> (\<forall>k. k \<noteq> service @ ''_backup_'' @ string_of_nat now \<longrightarrow>
          map_of (cache (snd (rotateCredentials now service r m))) k = map_of (cache m) k)"
  by (simp add: set_invalid [OF assms] rotate_invalid [OF assms] update_conv')

theorem invalid_record_effects_witness:
  "validateCredentials ''stripe'' [] = Inl (MissingRequiredField ''api_key'' ''stripe'')
   \<and> setCredentials ''stripe'' [] \<lparr>cache = [], masterKey = Some [1, 2, 3], keyFile = None, credentialsFile = None\<rparr>
       = (Inl (FailedToSet ''stripe'' (MissingRequiredField ''api_key'' ''stripe'')),
          \<lparr>cache = [], masterKey = Some [1, 2, 3], keyFile = None, credentialsFile = None\<rparr>)
   \<and> cache (snd (rotateCredentials 5 ''stripe'' []
         \<lparr>cache = [], masterKey = Some [1, 2, 3], keyFile = None, credentialsFile = None\<rparr>))
       = [(''stripe_backup_5'', Undefined)]"
  using invalid_record_effects [OF validate_stripe_empty,
      of "\<lparr>cache = [], masterKey = Some [1, 2, 3], keyFile = None, credentialsFile = None\<rparr>" 5]
  by (simp add: validate_stripe_empty cache_get_def string_of_nat.simps)

subsection \<open>cleanup\<close>

text \<open>
  Claim C1. \<open>cleanup()\<close> is to remove the backups older than 30 days, keep the newer
  ones and the live records, and write the pruned store. The code clears the cache and
  the master key before the loop: whatever the cache held and whatever the time, the
  cache ends empty, and since \<open>saveCredentials\<close> then finds no master key and throws
  (the \<open>catch\<close> prints the error), the credentials file is not written.
\<close>
theorem cleanup_clears_and_writes_nothing:
  "cleanup now m = m\<lparr>cache := [], masterKey := None\<rparr>
   \<and> listServices (cleanup now m) = []
   \<and> credentialsFile (cleanup now m) = credentialsFile m"
  by (simp add: cleanup_def saveCredentials_def encrypt_def Let_def listServices_def)

subsection \<open>Wrapping the master key\<close>

lemma unwrap_wrap_same:
  assumes "length salt = saltLength"
  shows "decryptMasterKey machineId (encryptMasterKey machineId salt key) = key"
  using assms by (simp add: decryptMasterKey_def encryptMasterKey_def Let_def)

lemma xor_loop_twice_eq_iff:
  "xor_loop a (xor_loop b d) = d \<longleftrightarrow> (\<forall>i < length d. key_at a i = key_at b i)"
proof -
  have "\<And>x p q :: byte. (x XOR q) XOR p = x \<longleftrightarrow> p = q"
    by (metis xor.assoc xor.commute xor_self_eq bit.xor_self xor.right_neutral xor.left_neutral)
  then show ?thesis
    by (simp add: list_eq_iff_nth_eq nth_xor_loop)
qed

lemma key_at_full: "length k = n \<Longrightarrow> i < n \<Longrightarrow> key_at k i = k ! i"
  by (auto simp: key_at_def)

lemma unwrap_wrap_as_loops:
  assumes "length salt = saltLength"
  shows "decryptMasterKey machineId' (encryptMasterKey machineId salt key)
           = xor_loop (take 16 machineId' @ take 16 salt)
               (xor_loop (take 16 machineId @ take 16 salt) key)"
  using assms by (simp add: decryptMasterKey_def encryptMasterKey_def Let_def)

lemma unwrap_wrap_other:
  assumes "length machineId = 32" "length machineId' = 32"
    and "length salt = saltLength" "length key = keyLength"
  shows "decryptMasterKey machineId' (encryptMasterKey machineId salt key) = key
           \<longleftrightarrow> take 16 machineId' = take 16 machineId"
proof -
  let ?ck = "take 16 machineId @ take 16 salt" and ?ck' = "take 16 machineId' @ take 16 salt"
  have len: "length ?ck = 32" "length ?ck' = 32"
    using assms by (simp_all add: saltLength_def)
  have "xor_loop ?ck' (xor_loop ?ck key) = key \<longleftrightarrow> (\<forall>i < 32. ?ck' ! i = ?ck ! i)"
    using assms(4) len by (simp add: xor_loop_twice_eq_iff keyLength_def key_at_full)
  also have "\<dots> \<longleftrightarrow> ?ck' = ?ck"
    using len by (simp add: list_eq_iff_nth_eq)
  also have "\<dots> \<longleftrightarrow> take 16 machineId' = take 16 machineId"
    by simp
  finally show ?thesis
    by (simp add: unwrap_wrap_as_loops [OF assms(3)])
qed

lemma unwrap_tail:
  assumes "length machineId = 32" "length machineId' = 32"
    and "length salt = saltLength" "length key = keyLength"
  shows "drop 16 (decryptMasterKey machineId' (encryptMasterKey machineId salt key)) = drop 16 key"
proof -
  let ?ck = "take 16 machineId @ take 16 salt" and ?ck' = "take 16 machineId' @ take 16 salt"
  have len: "length ?ck = 32" "length ?ck' = 32"
    using assms by (simp_all add: saltLength_def)
  show ?thesis unfolding unwrap_wrap_as_loops [OF assms(3)]
  proof (rule nth_equalityI)
    show "length (drop 16 (xor_loop ?ck' (xor_loop ?ck key))) = length (drop 16 key)"
      by simp
  next
    fix i assume "i < length (drop 16 (xor_loop ?ck' (xor_loop ?ck key)))"
    then have i: "16 + i < 32"
      using assms(4) by (simp add: keyLength_def)
    have "key_at ?ck (16 + i) = salt ! i" "key_at ?ck' (16 + i) = salt ! i"
      using i len assms by (simp_all add: key_at_full [where n = 32] nth_append saltLength_def)
    then show "drop 16 (xor_loop ?ck' (xor_loop ?ck key)) ! i = drop 16 key ! i"
      using i assms(4) by (simp add: nth_xor_loop keyLength_def xor.assoc)
  qed
qed

text \<open>
  Claim C5, as stated, fails in its second half: only the first 16 bytes of the
  fingerprint enter the keystream. Two fingerprints that differ in a later byte unwrap
  the same file to the same key.
\<close>
theorem other_fingerprint_same_key:
  "replicate 16 0 @ replicate 16 1 \<noteq> (replicate 32 0 :: buffer)
   \<and> decryptMasterKey (replicate 16 0 @ replicate 16 1)
        (encryptMasterKey (replicate 32 0) (replicate 32 7) (replicate 32 42))
     = replicate 32 42"
proof -
  have ne: "replicate 16 0 @ replicate 16 1 \<noteq> (replicate 32 0 :: buffer)"
  proof
    assume "replicate 16 0 @ replicate 16 1 = (replicate 32 0 :: buffer)"
    then have "(replicate 16 0 @ replicate 16 1) ! 16 = (replicate 32 0 :: buffer) ! 16"
      by simp
    then show False
      by (simp add: nth_append)
  qed
  have "take 16 (replicate 16 0 @ replicate 16 (1::byte)) = take 16 (replicate 32 0)"
    by simp
  then have "decryptMasterKey (replicate 16 0 @ replicate 16 1)
        (encryptMasterKey (replicate 32 0) (replicate 32 7) (replicate 32 42))
     = replicate 32 42"
    using unwrap_wrap_other [of "replicate 32 0" "replicate 16 0 @ replicate 16 1" "replicate 32 7" "replicate 32 42"]
    by (simp add: saltLength_def keyLength_def)
  with ne show ?thesis by blast
qed

text \<open>
  Claim C5, amended. For 32-byte fingerprints, salt and key: unwrapping what was
  wrapped under the same fingerprint gives the key back, and \<open>loadOrCreateMasterKey\<close>
  run on the file it created returns the key it created; unwrapping under another
  fingerprint never fails and gives 32 bytes, which are the key again exactly when the
  two fingerprints agree on their first 16 bytes, and whose last 16 bytes are those of
  the key whatever the fingerprint.
\<close>
theorem master_key_machine_binding:
  assumes "length machineId = 32" "length machineId' = 32"
    and "length salt = saltLength" "length key = keyLength"
    and "keyFile m = None"
  shows "decryptMasterKey machineId (encryptMasterKey machineId salt key) = key
    \<and> masterKey (loadOrCreateMasterKey machineId key salt m) = Some key
    \<and> masterKey (loadOrCreateMasterKey machineId key2 salt2
                    (loadOrCreateMasterKey machineId key salt m)) = Some key
    \<and> length (decryptMasterKey machineId' (encryptMasterKey machineId salt key)) = 32
    \<and> (decryptMasterKey machineId' (encryptMasterKey machineId salt key) = key
          \<longleftrightarrow> take 16 machineId' = take 16 machineId)
    \<and> (masterKey (loadOrCreateMasterKey machineId' key2 salt2
                    (loadOrCreateMasterKey machineId key salt m)) = Some key
          \<longleftrightarrow> take 16 machineId' = take 16 machineId)
    \<and> drop 16 (decryptMasterKey machineId' (encryptMasterKey machineId salt key)) = drop 16 key"
proof -
  have len: "length (decryptMasterKey machineId' (encryptMasterKey machineId salt key)) = 32"
    using assms(3,4) by (simp add: unwrap_wrap_as_loops keyLength_def)
  show ?thesis
    using assms(5) len unwrap_wrap_same [OF assms(3)] unwrap_wrap_other [OF assms(1-4)]
      unwrap_tail [OF assms(1-4)]
    by (simp add: loadOrCreateMasterKey_def)
qed

theorem master_key_machine_binding_witness:
  "length (replicate 32 1 :: buffer) = 32 \<and> length (replicate 32 2 :: buffer) = 32
   \<and> length (replicate 32 7 :: buffer) = saltLength \<and> length (replicate 32 42 :: buffer) = keyLength
   \<and> keyFile \<lparr>cache = [], masterKey = None, keyFile = None, credentialsFile = None\<rparr> = None
   \<and> decryptMasterKey (replicate 32 1) (encryptMasterKey (replicate 32 1) (replicate 32 7) (replicate 32 42))
       = replicate 32 42
   \<and> decryptMasterKey (replicate 32 2) (encryptMasterKey (replicate 32 1) (replicate 32 7) (replicate 32 42))
       \<noteq> replicate 32 42
   \<and> drop 16 (decryptMasterKey (replicate 32 2) (encryptMasterKey (replicate 32 1) (replicate 32 7) (replicate 32 42)))
       = replicate 16 42"
  using master_key_machine_binding [of "replicate 32 1" "replicate 32 2" "replicate 32 7"
      "replicate 32 42" "\<lparr>cache = [], masterKey = None, keyFile = None, credentialsFile = None\<rparr>"]
  by (simp add: saltLength_def keyLength_def)

subsection \<open>Base64\<close>

lemma unbase64_table: "list_all (\<lambda>i. unbase64 (b64_char i) = Some i) [0..<64]"
  by code_simp

lemma unbase64_b64_char: "i < 64 \<Longrightarrow> unbase64 (b64_char i) = Some i"
  using unbase64_table by (simp add: list_all_iff)

lemma unbase64_pad: "unbase64 (CHR ''='') = None"
  by (simp add: unbase64_def)

lemma b64_char_not_pad: "i < 64 \<Longrightarrow> b64_char i \<noteq> CHR ''=''"
  using unbase64_b64_char unbase64_pad by fastforce

lemma b64_sextets_Nil [simp]: "b64_sextets [] = []"
  by (simp add: b64_sextets_def)

lemma b64_sextets_pad [simp]: "b64_sextets (CHR ''='' # s) = []"
  by (simp add: b64_sextets_def)

lemma b64_sextets_Cons: "i < 64 \<Longrightarrow> b64_sextets (b64_char i # s) = i # b64_sextets s"
  by (simp add: b64_sextets_def b64_char_not_pad unbase64_b64_char List.map_filter_simps)

lemma unat_byte_less: "unat (a :: byte) < 256"
  using unsigned_less [of a] by simp

lemma div_pack: "y < m \<Longrightarrow> (x * m + y) div m = (x::nat)"
  by simp

lemma mod_pack: "y < m \<Longrightarrow> (x * m + y) mod m = (y::nat)"
  by simp

lemma div16_less: "n < 256 \<Longrightarrow> n div 16 < (16::nat)"
  by (simp add: less_mult_imp_div_less)

lemma div64_less: "n < 256 \<Longrightarrow> n div 64 < (4::nat)"
  by (simp add: less_mult_imp_div_less)

lemma sextets_first:
  "b < 256 \<Longrightarrow> a div 4 * 4 + (a mod 4 * 16 + b div 16) div 16 = (a::nat)"
  by (simp add: div_pack div16_less)

lemma sextets_second:
  "b < 256 \<Longrightarrow> c < 256 \<Longrightarrow>
   (a mod 4 * 16 + b div 16) mod 16 * 16 + (b mod 16 * 4 + c div 64) div 4 = (b::nat)"
  by (simp add: div_pack mod_pack div16_less div64_less)

lemma sextets_third:
  "c < 256 \<Longrightarrow> (b mod 16 * 4 + c div 64) mod 4 * 64 + c mod 64 = (c::nat)"
  by (simp add: mod_pack div64_less)

lemma sextets_bounds:
  "a < 256 \<Longrightarrow> a div 4 < (64::nat)"
  "b < 256 \<Longrightarrow> a mod 4 * 16 + b div 16 < (64::nat)"
  "c < 256 \<Longrightarrow> b mod 16 * 4 + c div 64 < (64::nat)"
proof -
  show "a < 256 \<Longrightarrow> a div 4 < (64::nat)"
    by (simp add: less_mult_imp_div_less)
  have "a mod 4 < 4" "b mod 16 < 16" by simp_all
  moreover have "b < 256 \<Longrightarrow> b div 16 < 16" "c < 256 \<Longrightarrow> c div 64 < 4"
    by (simp_all add: less_mult_imp_div_less)
  ultimately show "b < 256 \<Longrightarrow> a mod 4 * 16 + b div 16 < (64::nat)"
    and "c < 256 \<Longrightarrow> b mod 16 * 4 + c div 64 < (64::nat)"
    by linarith+
qed

lemma b64_group1: "b64_groups [unat a div 4, unat a mod 4 * 16] = [a]"
proof -
  have "unat a div 4 * 4 + (unat a mod 4 * 16 + 0 div 16) div 16 = unat a"
    by (rule sextets_first) simp
  then have "unat a div 4 * 4 + (unat a mod 4 * 16) div 16 = unat a"
    by simp
  then show ?thesis
    by (simp only: b64_groups.simps) simp
qed

lemma b64_group2:
  "b64_groups [unat a div 4, unat a mod 4 * 16 + unat b div 16, unat b mod 16 * 4] = [a, b]"
proof -
  have b: "unat b < 256" by (rule unat_byte_less)
  have "(unat a mod 4 * 16 + unat b div 16) mod 16 * 16 + (unat b mod 16 * 4 + 0 div 64) div 4 = unat b"
    by (rule sextets_second [OF b]) simp
  then have n2: "(unat a mod 4 * 16 + unat b div 16) mod 16 * 16 + (unat b mod 16 * 4) div 4 = unat b"
    by simp
  show ?thesis
    by (simp only: b64_groups.simps sextets_first [OF b] n2) simp
qed

lemma b64_group3:
  "b64_groups (unat a div 4 # (unat a mod 4 * 16 + unat b div 16)
      # (unat b mod 16 * 4 + unat c div 64) # unat c mod 64 # rest)
   = a # b # c # b64_groups rest"
proof -
  have b: "unat b < 256" and c: "unat c < 256" by (rule unat_byte_less)+
  show ?thesis
    by (simp only: b64_groups.simps sextets_first [OF b] sextets_second [OF b c]
        sextets_third [OF c]) simp
qed

lemma base64_roundtrip [simp]: "buffer_from_base64 (toString_base64 b) = b"
  unfolding buffer_from_base64_def
proof (induction b rule: toString_base64.induct)
  case 1
  then show ?case by simp
next
  case (2 a)
  have "unat a div 4 < 64"
    by (rule sextets_bounds) (rule unat_byte_less)
  moreover have "unat a mod 4 * 16 < 64"
    using sextets_bounds(2) [of 0 "unat a"] by simp
  ultimately show ?case
    by (simp only: toString_base64.simps b64_sextets_Cons b64_sextets_pad b64_group1)
next
  case (3 a b)
  have "unat a div 4 < 64" "unat a mod 4 * 16 + unat b div 16 < 64"
    by (rule sextets_bounds, rule unat_byte_less)+
  moreover have "unat b mod 16 * 4 < 64"
    using sextets_bounds(3) [of 0 "unat b"] by simp
  ultimately show ?case
    by (simp only: toString_base64.simps b64_sextets_Cons b64_sextets_pad b64_group2)
next
  case (4 a b c rest)
  have "unat a div 4 < 64" "unat a mod 4 * 16 + unat b div 16 < 64"
    "unat b mod 16 * 4 + unat c div 64 < 64"
    by (rule sextets_bounds, rule unat_byte_less)+
  moreover have "unat c mod 64 < 64"
    by simp
  ultimately show ?case using 4
    by (simp only: toString_base64.simps b64_sextets_Cons b64_group3)
qed

lemma toString_base64_Nil_iff [simp]: "toString_base64 b = [] \<longleftrightarrow> b = []"
  by (induction b rule: toString_base64.induct) simp_all

lemma length_toString_base64: "length (toString_base64 b) = 4 * ((length b + 2) div 3)"
proof (induction b rule: toString_base64.induct)
  case (4 a b c rest)
  then show ?case
    by simp presburger
qed simp_all

subsection \<open>Sealing and opening\<close>

lemma map_other_keys:
  "k \<notin> fst ` set al \<Longrightarrow> map (\<lambda>p. if fst p = k then (fst p, v) else p) al = al"
  by (induction al) auto

lemma update_present:
  "distinct (map fst al) \<Longrightarrow> k \<in> fst ` set al \<Longrightarrow>
   AList.update k v al = map (\<lambda>p. if fst p = k then (fst p, v) else p) al"
  by (induction al) (auto simp: map_other_keys)

lemma update_absent: "k \<notin> fst ` set al \<Longrightarrow> AList.update k v al = al @ [(k, v)]"
  by (induction al) auto

lemma update_append_present:
  "k \<in> fst ` set xs \<Longrightarrow> AList.update k v (xs @ ys) = AList.update k v xs @ ys"
  by (induction xs) auto

lemma delete_append: "AList.delete k (xs @ ys) = AList.delete k xs @ AList.delete k ys"
  by (simp add: AList.delete_eq)

lemma js_get_plain:
  "f \<notin> set object_prototype_keys \<Longrightarrow>
   js_get obj f = (case map_of obj f of None \<Rightarrow> Absent | Some v \<Rightarrow> Own v)"
  by (simp add: js_get_def split: option.splits)

lemma map_of_append_left:
  "f \<notin> fst ` set ys \<Longrightarrow> map_of (xs @ ys) f = map_of xs f"
  by (induction xs) (auto simp: map_of_eq_None_iff)

lemma js_get_append_left:
  "f \<notin> fst ` set ys \<Longrightarrow> js_get (xs @ ys) f = js_get xs f"
  by (simp add: js_get_def map_of_append_left del: map_of_append)

lemma fst_seal_entry [simp]: "fst (seal_entry k fs p) = fst p"
  by (cases "(k, fs, p)" rule: seal_entry.cases) auto

lemma fst_comp_seal_entry [simp]: "fst \<circ> seal_entry k fs = fst"
  by (rule ext) simp

lemma keys_seal_entries: "map fst (map (seal_entry k fs) r) = map fst r"
  by simp

lemma keys_image_seal_entry [simp]: "fst ` seal_entry k fs ` S = fst ` S"
  by (simp add: image_image)

lemma is_string_seal_entry: "is_string (snd p) \<Longrightarrow> is_string (snd (seal_entry k fs p))"
  by (cases "(k, fs, p)" rule: seal_entry.cases) (auto simp: sealed_value_def)

lemma open_loop_skip:
  "list_all (\<lambda>p. is_string (snd p)) entries \<Longrightarrow>
   open_loop mk (entries @ rest) result = open_loop mk rest result"
proof (induction entries)
  case Nil
  then show ?case by simp
next
  case (Cons p entries)
  obtain f v where p: "p = (f, v)" by (cases p)
  with Cons.prems have "v \<noteq> JBool True" by auto
  with Cons p show ?case by simp
qed


lemma map_of_entry:
  "distinct (map fst A) \<Longrightarrow> p \<in> set A \<Longrightarrow> map_of A (fst p) = Some (snd p)"
  by (cases p) simp

lemma string_valued_lookup:
  "string_valued A \<Longrightarrow> map_of A f = Some v \<Longrightarrow> is_string v"
proof -
  assume sv: "string_valued A" and "map_of A f = Some v"
  then have "(f, v) \<in> set A" by (simp add: map_of_SomeD)
  with sv show "is_string v" by (auto simp: string_valued_def list_all_iff)
qed

lemma marker_safe_Cons:
  assumes "marker_safe (f # fs)"
  shows "marker_safe fs" "f \<notin> set fs" "f \<notin> set object_prototype_keys"
    "f @ ''_encrypted'' \<notin> set fs" "\<And>g. g \<in> set fs \<Longrightarrow> g @ ''_encrypted'' \<noteq> f"
    "replace_first_empty (f @ ''_encrypted'') ''_encrypted'' = f"
  using assms by (auto simp: marker_safe_def list_all_iff)

lemma markers_Cons:
  "markers (f # fs) A =
     (if truthy (js_get A f) then (f @ ''_encrypted'', JBool True) # markers fs A else markers fs A)"
  by (simp add: markers_def)

lemma keys_markers: "fst ` set (markers fs A) \<subseteq> (\<lambda>f. f @ ''_encrypted'') ` set fs"
  by (auto simp: markers_def)

lemma truthy_lookup:
  assumes "f \<notin> set object_prototype_keys" "string_valued A"
  shows "truthy (js_get A f) \<longleftrightarrow> (\<exists>s. map_of A f = Some (JStr s) \<and> s \<noteq> [])"
proof (cases "map_of A f")
  case None
  then show ?thesis using assms(1) by (simp add: js_get_def)
next
  case (Some v)
  then have "is_string v" using assms(2) by (rule string_valued_lookup [rotated])
  then obtain s where "v = JStr s" by (cases v) auto
  with Some show ?thesis by (simp add: js_get_def)
qed

lemma seal_entries_Cons_truthy:
  assumes "distinct (map fst A)" "map_of A f = Some (JStr s)" "s \<noteq> []" "f \<notin> set fs"
  shows "map (seal_entry k fs) (AList.update f (sealed_value k s) A) = map (seal_entry k (f # fs)) A"
proof -
  have f: "f \<in> fst ` set A"
    using assms(2) by (meson domI dom_map_of_conv_image_fst domIff map_of_eq_None_iff option.distinct(1))
  have "map (\<lambda>p. seal_entry k fs (if fst p = f then (fst p, sealed_value k s) else p)) A
          = map (seal_entry k (f # fs)) A"
  proof (rule map_cong [OF refl])
    fix p assume p: "p \<in> set A"
    show "seal_entry k fs (if fst p = f then (fst p, sealed_value k s) else p) = seal_entry k (f # fs) p"
    proof (cases "fst p = f")
      case True
      with map_of_entry [OF assms(1) p] assms(2) have "p = (f, JStr s)"
        by (cases p) simp
      then show ?thesis using assms(3,4) by (simp add: sealed_value_def)
    next
      case False
      then show ?thesis by (cases "(k, fs, p)" rule: seal_entry.cases) auto
    qed
  qed
  then show ?thesis
    by (simp add: update_present [OF assms(1) f] comp_def)
qed

lemma seal_entries_Cons_falsy:
  assumes "distinct (map fst A)" "string_valued A" "f \<notin> set object_prototype_keys"
    "\<not> truthy (js_get A f)"
  shows "map (seal_entry k (f # fs)) A = map (seal_entry k fs) A"
proof (rule map_cong [OF refl])
  fix p assume p: "p \<in> set A"
  show "seal_entry k (f # fs) p = seal_entry k fs p"
  proof (cases "fst p = f")
    case True
    with map_of_entry [OF assms(1) p] have m: "map_of A f = Some (snd p)" by simp
    with assms(2) have "is_string (snd p)" by (rule string_valued_lookup)
    then obtain s where s: "snd p = JStr s" by (cases "snd p") auto
    with m assms(3,4) have "s = []" by (simp add: js_get_def)
    with s True show ?thesis by (cases p) simp
  next
    case False
    then show ?thesis by (cases "(k, fs, p)" rule: seal_entry.cases) auto
  qed
qed


lemma in_keys_iff: "f \<in> fst ` set A \<longleftrightarrow> map_of A f \<noteq> None"
  by (simp add: map_of_eq_None_iff)

lemma string_valued_update:
  "string_valued A \<Longrightarrow> is_string v \<Longrightarrow> f \<in> fst ` set A \<Longrightarrow> string_valued (AList.update f v A)"
  by (induction A) (auto simp: string_valued_def)

lemma markers_update:
  assumes "f \<notin> set fs"
  shows "markers fs (AList.update f v A) = markers fs A"
proof -
  have "\<And>g. g \<in> set fs \<Longrightarrow> js_get (AList.update f v A) g = js_get A g"
    using assms by (auto simp: js_get_def update_conv')
  then have "filter (\<lambda>g. truthy (js_get (AList.update f v A) g)) fs
               = filter (\<lambda>g. truthy (js_get A g)) fs"
    by (intro filter_cong refl) simp
  then show ?thesis
    by (simp add: markers_def)
qed

lemma keys_update_present:
  "f \<in> fst ` set A \<Longrightarrow> fst ` set (AList.update f v A) = fst ` set A"
  by (auto simp: dom_update)

lemma seal_entry_Nil: "seal_entry k [] p = p"
  by (cases "(k, [] :: string list, p)" rule: seal_entry.cases) auto

lemma seal_entries_Nil: "map (seal_entry k []) A = A"
  by (rule map_idI) (rule seal_entry_Nil)

lemma seal_loop_general:
  assumes "marker_safe fs" "distinct (map fst A)" "string_valued A"
    and "\<And>f. f \<in> set fs \<Longrightarrow> f \<notin> fst ` set M"
    and "\<And>f. f \<in> set fs \<Longrightarrow> f @ ''_encrypted'' \<notin> fst ` set (A @ M)"
  shows "seal_loop (Some k) fs (A @ M) = Inr (map (seal_entry k fs) A @ M @ markers fs A)"
  using assms
proof (induction fs arbitrary: A M)
  case Nil
  then show ?case by (simp add: markers_def seal_entries_Nil)
next
  case (Cons f fs)
  note safe = marker_safe_Cons [OF Cons.prems(1)]
  have get: "js_get (A @ M) f = js_get A f"
    by (rule js_get_append_left) (simp add: Cons.prems(4))
  show ?case
  proof (cases "truthy (js_get A f)")
    case True
    then obtain s where s: "map_of A f = Some (JStr s)" "s \<noteq> []"
      using truthy_lookup [OF safe(3) Cons.prems(3)] by auto
    then have fA: "f \<in> fst ` set A" by (simp add: in_keys_iff)
    let ?A' = "AList.update f (sealed_value k s) A"
    let ?M' = "M @ [(f @ ''_encrypted'', JBool True)]"
    have own: "js_get A f = Own (JStr s)"
      using s by (simp add: js_get_def)
    have up1: "AList.update f (sealed_value k s) (A @ M) = ?A' @ M"
      by (rule update_append_present [OF fA])
    have keys: "fst ` set ?A' = fst ` set A"
      by (rule keys_update_present [OF fA])
    have "f @ ''_encrypted'' \<notin> fst ` set (?A' @ M)"
      using Cons.prems(5) [of f] by (simp add: image_Un keys)
    then have up2: "AList.update (f @ ''_encrypted'') (JBool True) (?A' @ M) = ?A' @ ?M'"
      by (simp add: update_absent)
    have step: "seal_loop (Some k) (f # fs) (A @ M) = seal_loop (Some k) fs (?A' @ ?M')"
      using True by (simp add: get own encrypt_def up1 [unfolded sealed_value_def]
          up2 [unfolded sealed_value_def] sealed_value_def)
    have "seal_loop (Some k) fs (?A' @ ?M')
            = Inr (map (seal_entry k fs) ?A' @ ?M' @ markers fs ?A')"
    proof (rule Cons.IH [OF safe(1)])
      show "distinct (map fst ?A')"
        using Cons.prems(2) by (rule distinct_update)
      show "string_valued ?A'"
        using Cons.prems(3) fA by (simp add: string_valued_update sealed_value_def)
      show "g \<notin> fst ` set ?M'" if "g \<in> set fs" for g
        using that Cons.prems(4) [of g] safe(4) by auto
      show "g @ ''_encrypted'' \<notin> fst ` set (?A' @ ?M')" if "g \<in> set fs" for g
        using that Cons.prems(5) [of g] safe(2) by (auto simp: image_Un keys)
    qed
    also have "map (seal_entry k fs) ?A' = map (seal_entry k (f # fs)) A"
      by (rule seal_entries_Cons_truthy [OF Cons.prems(2) s safe(2)])
    also have "markers fs ?A' = markers fs A"
      by (rule markers_update [OF safe(2)])
    finally have "seal_loop (Some k) fs (?A' @ ?M')
            = Inr (map (seal_entry k (f # fs)) A @ ?M' @ markers fs A)" .
    then show ?thesis
      by (subst step) (use True in \<open>simp add: markers_Cons\<close>)
  next
    case False
    have "seal_loop (Some k) (f # fs) (A @ M) = seal_loop (Some k) fs (A @ M)"
      using False by (simp add: get)
    also have "\<dots> = Inr (map (seal_entry k fs) A @ M @ markers fs A)"
      by (rule Cons.IH [OF safe(1) Cons.prems(2,3)]) (use Cons.prems(4,5) in auto)
    finally show ?thesis
      using False by (simp only: seal_entries_Cons_falsy [OF Cons.prems(2,3) safe(3) False]
          markers_Cons if_False)
  qed
qed


lemma endsWith_append: "endsWith (s @ suf) suf"
  by (simp add: endsWith_def)

lemma map_of_seal_entries:
  "map_of (map (seal_entry k fs) A) g = map_option (\<lambda>v. snd (seal_entry k fs (g, v))) (map_of A g)"
proof (induction A)
  case Nil
  then show ?case by simp
next
  case (Cons p A)
  obtain f v where p: "p = (f, v)" by (cases p)
  have "fst (seal_entry k fs (f, v)) = f" by simp
  then obtain w where w: "seal_entry k fs (f, v) = (f, w)" by (cases "seal_entry k fs (f, v)") simp
  show ?case using Cons by (simp add: p w)
qed

lemma map_of_append_present:
  "map_of xs f = Some v \<Longrightarrow> map_of (xs @ ys) f = Some v"
  by simp

lemma string_valued_seal_entries:
  "string_valued A \<Longrightarrow> list_all (\<lambda>p. is_string (snd p)) (map (seal_entry k fs) A)"
  by (simp add: string_valued_def list_all_iff is_string_seal_entry)

lemma unseal_entries_Cons:
  assumes "distinct (map fst A)" "map_of A f = Some (JStr s)" "f \<notin> set fs"
  shows "AList.update f (JStr s) (map (seal_entry k (f # fs)) A) = map (seal_entry k fs) A"
proof -
  have f: "f \<in> fst ` set (map (seal_entry k (f # fs)) A)"
    using assms(2) by (simp add: in_keys_iff)
  have d: "distinct (map fst (map (seal_entry k (f # fs)) A))"
    using assms(1) by simp
  have "map (\<lambda>p. if fst (seal_entry k (f # fs) p) = f then (fst (seal_entry k (f # fs) p), JStr s)
                  else seal_entry k (f # fs) p) A
          = map (seal_entry k fs) A"
  proof (rule map_cong [OF refl])
    fix p assume p: "p \<in> set A"
    show "(if fst (seal_entry k (f # fs) p) = f then (fst (seal_entry k (f # fs) p), JStr s)
           else seal_entry k (f # fs) p) = seal_entry k fs p"
    proof (cases "fst p = f")
      case True
      with map_of_entry [OF assms(1) p] assms(2) have "p = (f, JStr s)"
        by (cases p) simp
      then show ?thesis using assms(3) by simp
    next
      case False
      then show ?thesis by (cases "(k, fs, p)" rule: seal_entry.cases) auto
    qed
  qed
  then show ?thesis
    by (simp add: update_present [OF d f] comp_def)
qed

lemma open_loop_markers:
  assumes "marker_safe fs" "distinct (map fst A)" "string_valued A"
    and "\<And>f. f \<in> set fs \<Longrightarrow> f @ ''_encrypted'' \<notin> fst ` set A"
  shows "open_loop (Some k) (markers fs A) (sealed_record k fs A) = A"
  using assms
proof (induction fs)
  case Nil
  then show ?case by (simp add: markers_def sealed_record_def seal_entries_Nil)
next
  case (Cons f fs)
  note safe = marker_safe_Cons [OF Cons.prems(1)]
  have IH: "open_loop (Some k) (markers fs A) (sealed_record k fs A) = A"
    by (rule Cons.IH [OF safe(1) Cons.prems(2,3)]) (simp add: Cons.prems(4))
  show ?case
  proof (cases "truthy (js_get A f)")
    case True
    then obtain s where s: "map_of A f = Some (JStr s)" "s \<noteq> []"
      using truthy_lookup [OF safe(3) Cons.prems(3)] by auto
    let ?X = "map (seal_entry k (f # fs)) A"
    let ?m = "(f @ ''_encrypted'', JBool True)"
    have rec: "sealed_record k (f # fs) A = ?X @ ?m # markers fs A"
      using True by (simp add: sealed_record_def markers_Cons)
    have "map_of ?X f = Some (sealed_value k s)"
      using s by (simp add: map_of_seal_entries)
    then have look: "js_get (?X @ ?m # markers fs A) f = Own (sealed_value k s)"
      by (simp add: js_get_def)
    have fX: "f \<in> fst ` set ?X"
      using s(1) by (simp add: in_keys_iff)
    have tr: "truthy (Own (sealed_value k s))"
      using s(2) by (simp add: sealed_value_def buffer_from_utf8_def xor_loop_def)
    have dec: "open_field (Some k) f (Own (sealed_value k s)) (?X @ ?m # markers fs A)
                 = AList.update f (JStr s) ?X @ ?m # markers fs A"
      by (simp add: sealed_value_def decrypt_def update_append_present [OF fX])
    have m1: "f @ ''_encrypted'' \<notin> fst ` set (map (seal_entry k fs) A)"
      using Cons.prems(4) [of f] by simp
    have m2: "f @ ''_encrypted'' \<notin> fst ` set (markers fs A)"
      using keys_markers [of fs A] safe(2) by auto
    have "open_loop (Some k) (markers (f # fs) A) (sealed_record k (f # fs) A)
            = open_loop (Some k) (markers fs A)
                (AList.delete (f @ ''_encrypted'') (map (seal_entry k fs) A @ ?m # markers fs A))"
      using True tr
      by (simp add: markers_Cons rec endsWith_append safe(6) look dec
          unseal_entries_Cons [OF Cons.prems(2) s(1) safe(2)] del: truthy.simps)
    also have "AList.delete (f @ ''_encrypted'') (map (seal_entry k fs) A @ ?m # markers fs A)
                 = sealed_record k fs A"
      using m1 m2 by (simp add: delete_append sealed_record_def)
    finally show ?thesis
      by (simp add: IH)
  next
    case False
    have "sealed_record k (f # fs) A = sealed_record k fs A"
      using False seal_entries_Cons_falsy [OF Cons.prems(2,3) safe(3) False]
      by (simp add: sealed_record_def markers_Cons)
    moreover have "markers (f # fs) A = markers fs A"
      using False by (simp add: markers_Cons)
    ultimately show ?thesis
      by (simp add: IH)
  qed
qed

lemma open_sealed_record:
  assumes "marker_safe fs" "distinct (map fst A)" "string_valued A"
    and "\<And>f. f \<in> set fs \<Longrightarrow> f @ ''_encrypted'' \<notin> fst ` set A"
  shows "decryptSensitiveFields (Some k) service (Creds (sealed_record k fs A)) = A"
proof -
  have "open_loop (Some k) (sealed_record k fs A) (sealed_record k fs A)
          = open_loop (Some k) (markers fs A) (sealed_record k fs A)"
    unfolding sealed_record_def [of k fs A, THEN arg_cong [where f = "\<lambda>x. open_loop (Some k) x (sealed_record k fs A)"]]
    by (rule open_loop_skip) (rule string_valued_seal_entries [OF assms(3)])
  then show ?thesis
    by (simp add: decryptSensitiveFields_def open_loop_markers [OF assms])
qed

subsection \<open>The tables and a successful setCredentials\<close>

lemma sensitive_rows_safe: "list_all (\<lambda>row. marker_safe (snd row)) sensitiveFields"
  by code_simp

lemma rules_rows_plain:
  "list_all (\<lambda>row. list_all (\<lambda>f. \<not> endsWith f ''_encrypted'') (fst (snd row) @ snd (snd row)))
     validationRules"
  by code_simp

lemma same_services: "map fst sensitiveFields = map fst validationRules"
  by (simp add: sensitiveFields_def validationRules_def)


lemma sensitive_known:
  assumes "map_of sensitiveFields service = Some fs"
  shows "marker_safe fs"
proof -
  have "(service, fs) \<in> set sensitiveFields"
    using assms by (rule map_of_SomeD)
  then show ?thesis
    using sensitive_rows_safe by (auto simp: list_all_iff)
qed

lemma rules_known:
  assumes "map_of validationRules service = Some (required, optional)"
  shows "\<exists>fs. map_of sensitiveFields service = Some fs"
    and "\<And>f. f \<in> set (required @ optional) \<Longrightarrow> \<not> endsWith f ''_encrypted''"
proof -
  have row: "(service, required, optional) \<in> set validationRules"
    using assms by (rule map_of_SomeD)
  then have "service \<in> set (map fst sensitiveFields)"
    unfolding same_services by force
  then show "\<exists>fs. map_of sensitiveFields service = Some fs"
    by (metis (no_types) domD dom_map_of_conv_image_fst set_map)
  show "\<not> endsWith f ''_encrypted''" if "f \<in> set (required @ optional)" for f
    using row rules_rows_plain that by (fastforce simp: list_all_iff)
qed

lemma rules_unknown:
  assumes "map_of validationRules service = None"
  shows "map_of sensitiveFields service = None"
proof -
  have "service \<notin> set (map fst validationRules)"
    using assms by (simp add: map_of_eq_None_iff)
  then show ?thesis
    unfolding same_services [symmetric] by (simp add: map_of_eq_None_iff)
qed

lemma unknown_fields_Nil_iff:
  "unknown_fields service allowed r = [] \<longleftrightarrow> fst ` set r \<subseteq> set allowed"
  by (auto simp: unknown_fields_def filter_empty_conv)

text \<open>What it means that validation accepts a record without any warning.\<close>
lemma validate_clean:
  assumes "validateCredentials service r = Inr []"
  obtains required optional where
    "map_of validationRules service = Some (required, optional)"
    "list_all (\<lambda>f. truthy (js_get r f)) required"
    "fst ` set r \<subseteq> set (required @ optional)"
proof (cases "map_of validationRules service")
  case None
  then show ?thesis
    using assms by (auto simp: validateCredentials_def js_get_def split: if_splits)
next
  case (Some row)
  obtain required optional where row: "row = (required, optional)" by (cases row)
  have v: "validateCredentials service r =
           (case check_required service required r of
              Inl e \<Rightarrow> Inl e
            | Inr u \<Rightarrow> Inr (unknown_fields service (required @ optional) r))"
    using Some row by (simp add: validate_known)
  then obtain u where u: "check_required service required r = Inr u"
    using assms by (cases "check_required service required r") auto
  then have "list_all (\<lambda>f. truthy (js_get r f)) required"
    using check_required_ok_iff by blast
  moreover have "fst ` set r \<subseteq> set (required @ optional)"
    using assms v u by (simp add: unknown_fields_Nil_iff)
  ultimately show ?thesis
    using that Some row by blast
qed

lemma validate_ok_service_nonempty:
  "validateCredentials service r = Inr [] \<Longrightarrow> service \<noteq> []"
  by (auto simp: validateCredentials_def js_get_validationRules_empty)

lemma seal_known:
  assumes "validateCredentials service r = Inr []" "distinct (map fst r)" "string_valued r"
  obtains fs where "map_of sensitiveFields service = Some fs" "marker_safe fs"
    "encryptSensitiveFields (Some k) service r = Inr (sealed_record k fs r)"
    "decryptSensitiveFields (Some k) service (Creds (sealed_record k fs r)) = r"
    "list_all (\<lambda>p. \<not> endsWith (fst p) ''_encrypted'') r"
proof -
  from assms(1) obtain required optional where
    ru: "map_of validationRules service = Some (required, optional)"
    and keys: "fst ` set r \<subseteq> set (required @ optional)"
    by (rule validate_clean)
  from rules_known(1) [OF ru] obtain fs where fs: "map_of sensitiveFields service = Some fs"
    by blast
  have safe: "marker_safe fs" using fs by (rule sensitive_known)
  have plain: "\<not> endsWith g ''_encrypted''" if "g \<in> fst ` set r" for g
    using that keys rules_known(2) [OF ru] by blast
  have nomark: "f @ ''_encrypted'' \<notin> fst ` set r" for f
    using plain [of "f @ ''_encrypted''"] by (auto simp: endsWith_append)
  have "seal_loop (Some k) fs (r @ []) = Inr (map (seal_entry k fs) r @ [] @ markers fs r)"
    by (rule seal_loop_general [OF safe assms(2,3)]) (simp_all add: nomark)
  then have seal: "encryptSensitiveFields (Some k) service r = Inr (sealed_record k fs r)"
    using fs by (simp add: encryptSensitiveFields_def js_get_def sealed_record_def)
  have "decryptSensitiveFields (Some k) service (Creds (sealed_record k fs r)) = r"
    by (rule open_sealed_record [OF safe assms(2,3)]) (rule nomark)
  moreover have "list_all (\<lambda>p. \<not> endsWith (fst p) ''_encrypted'') r"
    using plain by (auto simp: list_all_iff)
  ultimately show ?thesis
    using that fs safe seal by blast
qed

text \<open>The state after a \<open>setCredentials\<close> whose checks and sealing succeed.\<close>
lemma setCredentials_ok:
  assumes "service \<noteq> []" "validateCredentials service r = Inr ws"
    and "masterKey m = Some k" "encryptSensitiveFields (Some k) service r = Inr sealed"
  shows "setCredentials service r m =
     (Inr (),
      m\<lparr>cache := AList.update service (Creds sealed) (cache m),
        credentialsFile := Some (xor_loop k (buffer_from_utf8 (JSON_stringify
          (foldl (\<lambda>obj (service, creds). js_assign service creds obj) []
             (AList.update service (Creds sealed) (cache m))))))\<rparr>)"
  using assms by (simp add: setCredentials_def saveCredentials_def encrypt_def Let_def)

subsection \<open>Storing and reading back\<close>


lemma set_listServices: "set (listServices m) = fst ` set (cache m)"
  by (simp add: listServices_def)



subsection \<open>Rotation\<close>

lemma backup_key_differs: "service @ ''_backup_'' @ t \<noteq> service"
  by simp

lemma rotate_ok:
  assumes "service \<noteq> []" "validateCredentials service r = Inr ws"
    and "masterKey m = Some k" "encryptSensitiveFields (Some k) service r = Inr sealed"
  shows "\<exists>d. rotateCredentials now service r m =
     (Inr (),
      m\<lparr>cache := AList.update service (Creds sealed)
                   (AList.update (service @ ''_backup_'' @ string_of_nat now)
                      (cache_get m service) (cache m)),
        credentialsFile := Some d\<rparr>)"
proof -
  let ?m1 = "m\<lparr>cache := AList.update (service @ ''_backup_'' @ string_of_nat now)
                      (cache_get m service) (cache m)\<rparr>"
  have "masterKey ?m1 = Some k" using assms(3) by simp
  from setCredentials_ok [OF assms(1,2) this assms(4)]
  have "rotateCredentials now service r m =
     (Inr (),
      m\<lparr>cache := AList.update service (Creds sealed) (cache ?m1),
        credentialsFile := Some (xor_loop k (buffer_from_utf8 (JSON_stringify
          (foldl (\<lambda>obj (service, creds). js_assign service creds obj) []
             (AList.update service (Creds sealed) (cache ?m1))))))\<rparr>)"
    by (simp add: rotateCredentials_def Let_def)
  then show ?thesis
    by (intro exI) simp
qed

lemma seal_loop_succeeds:
  assumes "marker_safe fs"
    and "\<And>g v. g \<in> set fs \<Longrightarrow> map_of res g = Some v \<Longrightarrow> is_string v"
  shows "\<exists>res'. seal_loop (Some k) fs res = Inr res'"
  using assms
proof (induction fs arbitrary: res)
  case Nil
  then show ?case by simp
next
  case (Cons f fs)
  note safe = marker_safe_Cons [OF Cons.prems(1)]
  show ?case
  proof (cases "truthy (js_get res f)")
    case True
    then obtain v where v: "map_of res f = Some v"
      using safe(3) by (auto simp: js_get_def split: option.splits)
    then have "is_string v" using Cons.prems(2) [of f v] by simp
    then obtain s where s: "v = JStr s" by (cases v) auto
    let ?res = "AList.update (f @ ''_encrypted'') (JBool True)
                  (AList.update f (JStr (toString_base64 (xor_loop k (buffer_from_utf8 s)))) res)"
    have "\<exists>res'. seal_loop (Some k) fs ?res = Inr res'"
    proof (rule Cons.IH [OF safe(1)])
      fix g w assume g: "g \<in> set fs" and w: "map_of ?res g = Some w"
      have "g \<noteq> f" "g \<noteq> f @ ''_encrypted''"
        using g safe(2,4) by auto
      then have "map_of res g = Some w"
        using w by (simp add: update_conv')
      then show "is_string w"
        using Cons.prems(2) [of g w] g by simp
    qed
    then show ?thesis
      using True v s by (simp add: js_get_def encrypt_def)
  next
    case False
    have "\<exists>res'. seal_loop (Some k) fs res = Inr res'"
      by (rule Cons.IH [OF safe(1)]) (use Cons.prems(2) in auto)
    then show ?thesis using False by simp
  qed
qed

lemma seal_succeeds:
  assumes "validateCredentials service r = Inr ws" "string_valued r"
  shows "\<exists>sealed. encryptSensitiveFields (Some k) service r = Inr sealed"
proof (cases "map_of validationRules service")
  case None
  then have "service \<notin> set object_prototype_keys"
    using assms(1) by (auto simp: validateCredentials_def js_get_def split: if_splits)
  then show ?thesis
    using rules_unknown [OF None] by (simp add: encryptSensitiveFields_def js_get_def)
next
  case (Some row)
  obtain required optional where "row = (required, optional)" by (cases row)
  with Some rules_known(1) obtain fs where fs: "map_of sensitiveFields service = Some fs"
    by blast
  have "\<exists>res'. seal_loop (Some k) fs r = Inr res'"
    by (rule seal_loop_succeeds [OF sensitive_known [OF fs]])
      (rule string_valued_lookup [OF assms(2)])
  then show ?thesis
    using fs by (simp add: encryptSensitiveFields_def js_get_def)
qed


text \<open>
  Claim C10. For a service without a stored record, \<open>rotateCredentials\<close> throws no
  not-found error: with a non-empty service id, a master key and a record of strings
  that validation accepts, it succeeds, and afterwards the cache holds the key
  \<open><service>_backup_<now>\<close> with the value \<open>undefined\<close>, so \<open>listServices\<close> lists a
  backup of a service that never had credentials.
\<close>
theorem rotate_absent_service:
  assumes "map_of (cache m) service = None" "service \<noteq> []"
    and "validateCredentials service r = Inr ws" "string_valued r"
    and "masterKey m = Some k"
  shows "\<exists>m'. rotateCredentials now service r m = (Inr (), m')
     \<and> service @ ''_backup_'' @ string_of_nat now \<in> set (listServices m')
     \<and> map_of (cache m') (service @ ''_backup_'' @ string_of_nat now) = Some Undefined
     \<and> service \<in> set (listServices m')"
proof -
  from seal_succeeds [OF assms(3,4)] obtain sealed where
    seal: "encryptSensitiveFields (Some k) service r = Inr sealed"
    by blast
  from rotate_ok [OF assms(2,3,5) seal, of now]
  obtain d where rot: "rotateCredentials now service r m =
     (Inr (),
      m\<lparr>cache := AList.update service (Creds sealed)
                   (AList.update (service @ ''_backup_'' @ string_of_nat now)
                      (cache_get m service) (cache m)),
        credentialsFile := Some d\<rparr>)"
    by blast
  have old: "cache_get m service = Undefined"
    using assms(1) by (simp add: cache_get_def)
  show ?thesis
    unfolding rot old
    by (simp add: set_listServices dom_update update_conv')
qed

lemma string_of_nat_example: "string_of_nat 1700000000000 = ''1700000000000''"
  by (simp add: string_of_nat.simps)


theorem rotate_absent_service_witness:
  "map_of (cache \<lparr>cache = [], masterKey = Some [0, 0, 0], keyFile = None, credentialsFile = None\<rparr>)
       ''github'' = None
   \<and> ''github'' \<noteq> []
   \<and> validateCredentials ''github'' [(''token'', JStr ''ghp_2'')] = Inr []
   \<and> string_valued [(''token'', JStr ''ghp_2'')]
   \<and> (\<exists>m'. rotateCredentials 1700000000000 ''github'' [(''token'', JStr ''ghp_2'')]
              \<lparr>cache = [], masterKey = Some [0, 0, 0], keyFile = None, credentialsFile = None\<rparr>
            = (Inr (), m')
          \<and> ''github_backup_1700000000000'' \<in> set (listServices m')
          \<and> map_of (cache m') ''github_backup_1700000000000'' = Some Undefined
          \<and> ''github'' \<in> set (listServices m'))"
proof -
  let ?m = "\<lparr>cache = [], masterKey = Some [0, 0, 0], keyFile = None, credentialsFile = None\<rparr>"
  have c: "map_of (cache ?m) ''github'' = None"
    by simp
  have n: "''github'' \<noteq> []"
    by simp
  have v: "validateCredentials ''github'' [(''token'', JStr ''ghp_2'')] = Inr []"
    by (simp add: validateCredentials_def js_get_def validationRules_def unknown_fields_def)
  have s: "string_valued [(''token'', JStr ''ghp_2'')]"
    by (simp add: string_valued_def)
  have k: "masterKey ?m = Some [0, 0, 0]"
    by simp
  from rotate_absent_service [OF c n v s k, of 1700000000000] show ?thesis
    using c v s by (simp add: string_of_nat_example)
qed

subsection \<open>What is stored and what is written\<close>

lemma map_of_append_right:
  "g \<notin> fst ` set xs \<Longrightarrow> map_of (xs @ ys) g = map_of ys g"
  by (simp add: map_add_def map_of_eq_None_iff [symmetric] split: option.splits)

lemma map_of_markers:
  assumes "f \<in> set fs" "truthy (js_get r f)"
  shows "map_of (markers fs r) (f @ ''_encrypted'') = Some (JBool True)"
proof -
  have "(f @ ''_encrypted'', JBool True) \<in> set (markers fs r)"
    using assms by (auto simp: markers_def)
  then obtain w where w: "map_of (markers fs r) (f @ ''_encrypted'') = Some w"
    by (metis (no_types) domD dom_map_of_conv_image_fst fst_conv image_eqI)
  then have "(f @ ''_encrypted'', w) \<in> set (markers fs r)"
    by (rule map_of_SomeD)
  then have "w = JBool True"
    by (auto simp: markers_def)
  with w show ?thesis by simp
qed

lemma base64_longer:
  assumes "0 < (n::nat)"
  shows "4 * ((n + 2) div 3) \<noteq> n"
proof -
  define q where "q = (n + 2) div 3"
  have "n + 2 = 3 * q + (n + 2) mod 3"
    by (simp add: q_def)
  moreover have "(n + 2) mod 3 < 3"
    by simp
  ultimately have "n \<le> 3 * q" "0 < q"
    using assms by linarith+
  then show ?thesis
    unfolding q_def [symmetric] by linarith
qed

lemma sealed_value_differs:
  assumes "v \<noteq> []"
  shows "sealed_value k v \<noteq> JStr v"
proof
  assume "sealed_value k v = JStr v"
  then have "length (toString_base64 (xor_loop k (buffer_from_utf8 v))) = length v"
    by (simp add: sealed_value_def)
  then have "4 * ((length v + 2) div 3) = length v"
    by (simp add: length_toString_base64 buffer_from_utf8_def)
  moreover have "length v > 0" using assms by simp
  ultimately show False using base64_longer by blast
qed


text \<open>
  Claim C8, as stated, fails: the document is the JSON text XORed with the repeated
  master key, and nothing keeps its bytes away from the plaintext. With a master key
  that starts \<open>08 61 7F 58\<close>, storing the \<open>stripe\<close> key \<open>sk_x\<close> writes a file
  whose first four bytes are \<open>sk_x\<close> (the opening \<open>{\<close>, line feed and two blanks
  of the JSON text, XORed with the key).
\<close>
theorem persisted_document_contains_plaintext:
  "fst (setCredentials ''stripe'' [(''api_key'', JStr ''sk_x'')]
          \<lparr>cache = [],
           masterKey = Some [0x08, 0x61, 0x7F, 0x58, 5, 6, 7, 8, 9, 10, 11, 12, 13, 14, 15, 16,
                             17, 18, 19, 20, 21, 22, 23, 24, 25, 26, 27, 28, 29, 30, 31, 32],
           keyFile = None, credentialsFile = None\<rparr>) = Inr ()
   \<and> (case credentialsFile (snd (setCredentials ''stripe'' [(''api_key'', JStr ''sk_x'')]
          \<lparr>cache = [],
           masterKey = Some [0x08, 0x61, 0x7F, 0x58, 5, 6, 7, 8, 9, 10, 11, 12, 13, 14, 15, 16,
                             17, 18, 19, 20, 21, 22, 23, 24, 25, 26, 27, 28, 29, 30, 31, 32],
           keyFile = None, credentialsFile = None\<rparr>)) of
         None \<Rightarrow> False
       | Some doc \<Rightarrow> startsWith doc (buffer_from_utf8 ''sk_x'')
           \<and> string_includes doc (buffer_from_utf8 ''sk_x''))"
  by code_simp

text \<open>
  Claim C8, amended. For a known service, a record of strings that the schema accepts
  without a warning, a sensitive field with a non-empty value \<open>v\<close> and any master key
  \<open>k\<close>: \<open>setCredentials\<close> succeeds; the stored record holds under the field the
  Base64 text of \<open>v\<close> XORed with \<open>k\<close>, which is never the string \<open>v\<close> itself, and
  the marker \<open><field>_encrypted = true\<close>; and the file written is the JSON text of
  the store XORed with \<open>k\<close>: decrypting it with \<open>k\<close> gives that text back.
\<close>
theorem sealed_field_and_document:
  assumes "validateCredentials service r = Inr []" "distinct (map fst r)" "string_valued r"
    and "masterKey m = Some k"
    and "map_of sensitiveFields service = Some fs" "f \<in> set fs"
    and "map_of r f = Some (JStr v)" "v \<noteq> []"
  shows "\<exists>m' sealed doc.
       setCredentials service r m = (Inr (), m')
     \<and> map_of (cache m') service = Some (Creds sealed)
     \<and> map_of sealed f = Some (JStr (toString_base64 (xor_loop k (buffer_from_utf8 v))))
     \<and> toString_base64 (xor_loop k (buffer_from_utf8 v)) \<noteq> v
     \<and> map_of sealed (f @ ''_encrypted'') = Some (JBool True)
     \<and> credentialsFile m' = Some doc
     \<and> decrypt (Some k) doc
         = Inr (JSON_stringify
                  (foldl (\<lambda>obj (service, creds). js_assign service creds obj) [] (cache m')))"
proof -
  from assms(1-3) obtain fs' where
    fs': "map_of sensitiveFields service = Some fs'" and safe: "marker_safe fs'"
    and seal: "encryptSensitiveFields (Some k) service r = Inr (sealed_record k fs' r)"
    and plain: "list_all (\<lambda>p. \<not> endsWith (fst p) ''_encrypted'') r"
    by (rule seal_known [where k = k])
  have [simp]: "fs' = fs" using fs' assms(5) by simp
  note ok = setCredentials_ok [OF validate_ok_service_nonempty [OF assms(1)] assms(1,4) seal]
  have "f \<notin> set object_prototype_keys"
    using safe assms(6) by (auto simp: marker_safe_def list_all_iff)
  then have tr: "truthy (js_get r f)"
    using assms(7,8) by (simp add: js_get_def)
  have "map_of (map (seal_entry k fs) r) f = Some (sealed_value k v)"
    using assms(6-8) by (simp add: map_of_seal_entries)
  then have a: "map_of (sealed_record k fs r) f
                  = Some (JStr (toString_base64 (xor_loop k (buffer_from_utf8 v))))"
    by (simp add: sealed_record_def sealed_value_def)
  have "f @ ''_encrypted'' \<notin> fst ` set r"
  proof
    assume "f @ ''_encrypted'' \<in> fst ` set r"
    then obtain p where "p \<in> set r" "fst p = f @ ''_encrypted''" by auto
    with plain have "\<not> endsWith (f @ ''_encrypted'') ''_encrypted''"
      by (auto simp: list_all_iff)
    then show False by (simp add: endsWith_append)
  qed
  then have "map_of (sealed_record k fs r) (f @ ''_encrypted'')
               = map_of (markers fs r) (f @ ''_encrypted'')"
    unfolding sealed_record_def by (intro map_of_append_right) simp
  then have b: "map_of (sealed_record k fs r) (f @ ''_encrypted'') = Some (JBool True)"
    by (simp add: map_of_markers [OF assms(6) tr])
  have c: "toString_base64 (xor_loop k (buffer_from_utf8 v)) \<noteq> v"
    using sealed_value_differs [OF assms(8), of k] by (simp add: sealed_value_def)
  let ?cache = "AList.update service (Creds (sealed_record k fs r)) (cache m)"
  let ?json = "JSON_stringify (foldl (\<lambda>obj (service, creds). js_assign service creds obj) [] ?cache)"
  let ?doc = "xor_loop k (buffer_from_utf8 ?json)"
  let ?m' = "m\<lparr>cache := ?cache, credentialsFile := Some ?doc\<rparr>"
  have 1: "setCredentials service r m = (Inr (), ?m')"
    using ok by simp
  have 2: "map_of (cache ?m') service = Some (Creds (sealed_record k fs r))"
    by (simp add: update_conv')
  have 3: "credentialsFile ?m' = Some ?doc"
    by simp
  have 4: "decrypt (Some k) ?doc
         = Inr (JSON_stringify
                  (foldl (\<lambda>obj (service, creds). js_assign service creds obj) [] (cache ?m')))"
    by (simp add: decrypt_def)
  show ?thesis
    by (rule exI [where x = "?m'"], rule exI [where x = "sealed_record k fs r"],
        rule exI [where x = "?doc"]) (intro conjI 1 2 a c b 3 4)
qed

theorem sealed_field_and_document_witness:
  "validateCredentials ''stripe'' [(''api_key'', JStr ''sk_x'')] = Inr []
   \<and> distinct (map fst [(''api_key'', JStr ''sk_x'')])
   \<and> string_valued [(''api_key'', JStr ''sk_x'')]
   \<and> map_of sensitiveFields ''stripe'' = Some [''api_key'', ''webhook_secret'']
   \<and> ''api_key'' \<in> set [''api_key'', ''webhook_secret'']
   \<and> map_of [(''api_key'', JStr ''sk_x'')] ''api_key'' = Some (JStr ''sk_x'')
   \<and> ''sk_x'' \<noteq> []
   \<and> (\<exists>m' sealed.
         setCredentials ''stripe'' [(''api_key'', JStr ''sk_x'')]
           \<lparr>cache = [], masterKey = Some [1, 2, 3], keyFile = None, credentialsFile = None\<rparr>
           = (Inr (), m')
       \<and> map_of (cache m') ''stripe'' = Some (Creds sealed)
       \<and> map_of sealed ''api_key'' = Some (JStr ''cmlceQ=='')
       \<and> map_of sealed ''api_key_encrypted'' = Some (JBool True))"
proof -
  let ?m = "\<lparr>cache = [], masterKey = Some [1, 2, 3], keyFile = None, credentialsFile = None\<rparr>"
  have v: "validateCredentials ''stripe'' [(''api_key'', JStr ''sk_x'')] = Inr []"
    by (rule validate_stripe_api_key)
  have d: "distinct (map fst [(''api_key'', JStr ''sk_x'')])"
    by simp
  have s: "string_valued [(''api_key'', JStr ''sk_x'')]"
    by (simp add: string_valued_def)
  have k: "masterKey ?m = Some [1, 2, 3]"
    by simp
  have t: "map_of sensitiveFields ''stripe'' = Some [''api_key'', ''webhook_secret'']"
    by (simp add: sensitiveFields_def)
  have f: "''api_key'' \<in> set [''api_key'', ''webhook_secret'']"
    by simp
  have l: "map_of [(''api_key'', JStr ''sk_x'')] ''api_key'' = Some (JStr ''sk_x'')"
    by simp
  have n: "''sk_x'' \<noteq> []"
    by simp
  have e: "toString_base64 (xor_loop [1, 2, 3] (buffer_from_utf8 ''sk_x'')) = ''cmlceQ==''"
    by code_simp
  from sealed_field_and_document [OF v d s k t f l n] show ?thesis
    using v d s t l unfolding e by auto
qed

subsection \<open>Reading on the heap\<close>

lemma open_loop_heap_spec:
  "result < length h \<Longrightarrow>
   open_loop_heap mk entries result h = h[result := open_loop mk entries (h ! result)]"
proof (induction entries arbitrary: h)
  case Nil
  then show ?case by simp
next
  case (Cons e entries)
  obtain field v where e: "e = (field, v)" by (cases e)
  show ?case
  proof (cases "endsWith field ''_encrypted'' \<and> v = JBool True")
    case True
    let ?actual = "replace_first_empty field ''_encrypted''"
    let ?o1 = "if truthy (js_get (h ! result) ?actual)
               then open_field mk ?actual (js_get (h ! result) ?actual) (h ! result)
               else h ! result"
    let ?h2 = "h[result := AList.delete field ?o1]"
    have "open_loop_heap mk (e # entries) result h = open_loop_heap mk entries result ?h2"
      using True Cons.prems by (simp add: e Let_def)
    also have "\<dots> = ?h2[result := open_loop mk entries (?h2 ! result)]"
      by (rule Cons.IH) (simp add: Cons.prems)
    also have "\<dots> = h[result := open_loop mk (e # entries) (h ! result)]"
      using True Cons.prems by (simp add: e Let_def)
    finally show ?thesis .
  next
    case False
    then show ?thesis using Cons by (auto simp: e)
  qed
qed

lemma decryptSensitiveFields_heap_spec:
  "decryptSensitiveFields_heap mk service ref h
     = (length h, h @ [decryptSensitiveFields mk service (deref h ref)])"
  by (simp add: decryptSensitiveFields_heap_def Let_def open_loop_heap_spec
      decryptSensitiveFields_def)

lemma getCredentials_heap_spec:
  assumes "map_of (hcache hm) service = Some ref"
  shows "getCredentials_heap service hm
     = (Inr (length (heap hm)),
        hm\<lparr>heap := heap hm @ [decryptSensitiveFields (hmasterKey hm) service (deref (heap hm) ref)]\<rparr>)"
  using assms by (simp add: getCredentials_heap_def decryptSensitiveFields_heap_spec)

lemma deref_append: "ref_ok h ref \<Longrightarrow> deref (h @ h') ref = deref h ref"
  by (cases ref) (simp_all add: nth_append)

lemma map_of_map_snd:
  "map_of (map (\<lambda>p. (fst p, g (snd p))) xs) k = map_option g (map_of xs k)"
  by (induction xs) auto

lemma map_of_by_value:
  "map_of (cache (by_value hm)) service = map_option (deref (heap hm)) (map_of (hcache hm) service)"
  by (simp add: by_value_def map_of_map_snd)

lemma heap_ok_lookup:
  "heap_ok hm \<Longrightarrow> map_of (hcache hm) service = Some ref \<Longrightarrow> ref_ok (heap hm) ref"
proof -
  assume ok: "heap_ok hm" and "map_of (hcache hm) service = Some ref"
  then have "(service, ref) \<in> set (hcache hm)" by (simp add: map_of_SomeD)
  with ok show ?thesis by (auto simp: heap_ok_def list_all_iff)
qed

lemma by_value_grow:
  assumes "heap_ok hm"
  shows "by_value (hm\<lparr>heap := heap hm @ h'\<rparr>) = by_value hm"
proof -
  have "map (\<lambda>p. (fst p, deref (heap hm @ h') (snd p))) (hcache hm)
          = map (\<lambda>p. (fst p, deref (heap hm) (snd p))) (hcache hm)"
    using assms by (intro map_cong refl) (simp add: heap_ok_def list_all_iff deref_append)
  then show ?thesis by (simp add: by_value_def)
qed

text \<open>
  Claim C9. \<open>getCredentials\<close> does not write to the in-memory store. With the records
  on a heap whose cache references are valid, reading a stored service returns the
  address of a new object; the cache is the same, every object that was on the heap is
  the same (so the stored, sealed record is), and the manager stands for the same
  manager by value. The object returned holds what \<open>getCredentials\<close> by value returns,
  and a second read returns another object with the same content.
\<close>
theorem getCredentials_leaves_store:
  assumes "heap_ok hm" "map_of (hcache hm) service = Some ref"
  shows "\<exists>a hm'. getCredentials_heap service hm = (Inr a, hm')
     \<and> hcache hm' = hcache hm
     \<and> take (length (heap hm)) (heap hm') = heap hm
     \<and> deref (heap hm') ref = deref (heap hm) ref
     \<and> by_value hm' = by_value hm
     \<and> getCredentials service (by_value hm) = Inr (heap hm' ! a)
     \<and> (\<exists>a2 hm2. getCredentials_heap service hm' = (Inr a2, hm2)
           \<and> heap hm2 ! a2 = heap hm' ! a
           \<and> by_value hm2 = by_value hm)"
proof -
  let ?d = "decryptSensitiveFields (hmasterKey hm) service (deref (heap hm) ref)"
  let ?hm' = "hm\<lparr>heap := heap hm @ [?d]\<rparr>"
  let ?hm2 = "hm\<lparr>heap := heap hm @ [?d, ?d]\<rparr>"
  have ok: "ref_ok (heap hm) ref"
    using assms by (rule heap_ok_lookup)
  have 1: "getCredentials_heap service hm = (Inr (length (heap hm)), ?hm')"
    by (rule getCredentials_heap_spec [OF assms(2)])
  have 2: "hcache ?hm' = hcache hm" "take (length (heap hm)) (heap ?hm') = heap hm"
    by simp_all
  have 3: "deref (heap ?hm') ref = deref (heap hm) ref"
    using ok by (simp add: deref_append)
  have 4: "by_value ?hm' = by_value hm"
    by (rule by_value_grow [OF assms(1)])
  have 5: "getCredentials service (by_value hm) = Inr (heap ?hm' ! length (heap hm))"
    using assms(2) by (simp add: getCredentials_def by_value_def map_of_map_snd)
  have "map_of (hcache ?hm') service = Some ref"
    using assms(2) by simp
  from getCredentials_heap_spec [OF this]
  have 6: "getCredentials_heap service ?hm' = (Inr (Suc (length (heap hm))), ?hm2)"
    using 3 by simp
  have 7: "heap ?hm2 ! Suc (length (heap hm)) = heap ?hm' ! length (heap hm)"
    by (simp add: nth_append)
  have 8: "by_value ?hm2 = by_value hm"
    by (rule by_value_grow [OF assms(1)])
  show ?thesis
    by (rule exI [where x = "length (heap hm)"], rule exI [where x = "?hm'"])
      (intro conjI 1 2 3 4 5 exI [where x = "Suc (length (heap hm))"] exI [where x = "?hm2"] 6 7 8)
qed

theorem getCredentials_leaves_store_witness:
  "heap_ok \<lparr>hcache = [(''github'', ObjRef 0)],
            heap = [[(''token'', JStr ''Z2hwXzE=''), (''token_encrypted'', JBool True)]],
            hmasterKey = Some [0, 0, 0]\<rparr>
   \<and> map_of (hcache \<lparr>hcache = [(''github'', ObjRef 0)],
            heap = [[(''token'', JStr ''Z2hwXzE=''), (''token_encrypted'', JBool True)]],
            hmasterKey = Some [0, 0, 0]\<rparr>) ''github'' = Some (ObjRef 0)
   \<and> (\<exists>a hm'. getCredentials_heap ''github''
           \<lparr>hcache = [(''github'', ObjRef 0)],
            heap = [[(''token'', JStr ''Z2hwXzE=''), (''token_encrypted'', JBool True)]],
            hmasterKey = Some [0, 0, 0]\<rparr> = (Inr a, hm')
         \<and> heap hm' ! a = [(''token'', JStr ''ghp_1'')]
         \<and> heap hm' ! 0 = [(''token'', JStr ''Z2hwXzE=''), (''token_encrypted'', JBool True)])"
proof -
  let ?hm = "\<lparr>hcache = [(''github'', ObjRef 0)],
            heap = [[(''token'', JStr ''Z2hwXzE=''), (''token_encrypted'', JBool True)]],
            hmasterKey = Some [0, 0, 0]\<rparr>"
  have ok: "heap_ok ?hm"
    by (simp add: heap_ok_def)
  have look: "map_of (hcache ?hm) ''github'' = Some (ObjRef 0)"
    by simp
  have ev: "getCredentials ''github'' (by_value ?hm) = Inr [(''token'', JStr ''ghp_1'')]"
    by code_simp
  from getCredentials_leaves_store [OF ok look] obtain a hm' where
    r: "getCredentials_heap ''github'' ?hm = (Inr a, hm')"
    and t: "take (length (heap ?hm)) (heap hm') = heap ?hm"
    and g: "getCredentials ''github'' (by_value ?hm) = Inr (heap hm' ! a)"
    by blast
  from g ev have "heap hm' ! a = [(''token'', JStr ''ghp_1'')]"
    by simp
  moreover have "heap hm' ! 0 = [(''token'', JStr ''Z2hwXzE=''), (''token_encrypted'', JBool True)]"
  proof -
    from t have tk: "take 1 (heap hm') = [[(''token'', JStr ''Z2hwXzE=''), (''token_encrypted'', JBool True)]]"
      by simp
    have "heap hm' ! 0 = take 1 (heap hm') ! 0"
      by simp
    also have "\<dots> = [[(''token'', JStr ''Z2hwXzE=''), (''token_encrypted'', JBool True)]] ! 0"
      by (simp only: tk)
    finally show ?thesis by simp
  qed
  ultimately show ?thesis
    using ok look r by blast
qed

end
